theory Spec2Isabelle
  imports Main "HOL-Library.AList" "HOL-Library.Sublist"
begin

section \<open>Python values, exceptions and dictionaries\<close>

text \<open>
  A Python \<open>str\<close> is a sequence of Unicode code points, so it is modelled as a list of
  naturals; \<open>U\<close> reads an ASCII literal as such a sequence. The registry below holds two
  code points beyond ASCII (65372, the fullwidth vertical bar, and 9601, the lower
  one-eighth block), which are written as numbers.
\<close>

type_synonym pystr = "nat list"

abbreviation U :: "string \<Rightarrow> pystr" where
  "U s \<equiv> map of_char s"

definition quoted :: "pystr \<Rightarrow> pystr" where
  "quoted s = 39 # s @ [39]"

text \<open>
  The values that messages, tool definitions and template variables are made of
  (\<open>Dict[str, Any]\<close> in the source's annotations): the JSON-shaped part of Python's
  objects. A dictionary keeps its insertion order, so it is an association list; numbers
  are integers (no modelled operation inspects a number beyond its truth value).
\<close>

datatype pyval =
    PNone
  | PBool bool
  | PInt int
  | PStr pystr
  | PList "pyval list"
  | PDict "(pystr \<times> pyval) list"

text \<open>
  An exception is its class and its message (\<open>str(e)\<close>). The Python classes below
  derive from \<open>Exception\<close>; \<open>JSONDecodeError\<close> is what \<open>json.loads\<close> raises on
  malformed text and \<open>ReError\<close> is \<open>re.error\<close>. \<open>Unmodelled\<close> is no Python exception: it
  is the answer of the model of a library on an input that the model does not cover, and
  like an exception that nothing catches it ends the computation.
\<close>

datatype exc_class =
  ValueError | TypeError | AttributeError | JSONDecodeError | ReError | OtherException
  | Unmodelled

type_synonym exc = "exc_class \<times> pystr"

fun truthy :: "pyval \<Rightarrow> bool" where
  "truthy PNone = False"
| "truthy (PBool b) = b"
| "truthy (PInt i) = (i \<noteq> 0)"
| "truthy (PStr s) = (s \<noteq> [])"
| "truthy (PList xs) = (xs \<noteq> [])"
| "truthy (PDict kvs) = (kvs \<noteq> [])"

fun type_name :: "pyval \<Rightarrow> pystr" where
  "type_name PNone = U ''NoneType''"
| "type_name (PBool b) = U ''bool''"
| "type_name (PInt i) = U ''int''"
| "type_name (PStr s) = U ''str''"
| "type_name (PList xs) = U ''list''"
| "type_name (PDict kvs) = U ''dict''"

definition no_attribute :: "pyval \<Rightarrow> string \<Rightarrow> exc" where
  "no_attribute v a =
     (AttributeError, quoted (type_name v) @ U '' object has no attribute '' @ quoted (U a))"

definition list_index_error :: exc where
  "list_index_error = (TypeError, U ''list indices must be integers or slices, not str'')"

text \<open>\<open>d[k] = v\<close> on a dictionary: an existing key keeps its place, a new key goes last.\<close>

definition dict_set :: "pystr \<Rightarrow> pyval \<Rightarrow> (pystr \<times> pyval) list \<Rightarrow> (pystr \<times> pyval) list" where
  "dict_set k v d = AList.update k v d"

text \<open>\<open>{**d, **e}\<close>: the entries of \<open>e\<close> are stored into \<open>d\<close> one after the other.\<close>

definition dict_merge :: "(pystr \<times> pyval) list \<Rightarrow> (pystr \<times> pyval) list \<Rightarrow> (pystr \<times> pyval) list" where
  "dict_merge d e = fold (\<lambda>(k, v). dict_set k v) e d"

text \<open>A \<open>for\<close> loop whose body may raise: the first exception ends the loop.\<close>

fun for_each :: "('a \<Rightarrow> exc + 'b) \<Rightarrow> 'a list \<Rightarrow> exc + 'b list" where
  "for_each f [] = Inr []"
| "for_each f (x # xs) =
     (case f x of
        Inl e \<Rightarrow> Inl e
      | Inr y \<Rightarrow> (case for_each f xs of Inl e \<Rightarrow> Inl e | Inr ys \<Rightarrow> Inr (y # ys)))"

text \<open>What \<open>for x in v\<close> iterates over.\<close>

fun py_iter :: "pyval \<Rightarrow> exc + pyval list" where
  "py_iter (PList xs) = Inr xs"
| "py_iter (PDict kvs) = Inr (map (\<lambda>(k, v). PStr k) kvs)"
| "py_iter (PStr s) = Inr (map (\<lambda>c. PStr [c]) s)"
| "py_iter v = Inl (TypeError, quoted (type_name v) @ U '' object is not iterable'')"


section \<open>The model registry (config.py)\<close>

record ModelConfig =
  name :: pystr
  template_file :: pystr
  tokenizer_id :: pystr
  bos_token :: pystr
  eos_token :: pystr
  token_patterns :: "(pystr \<times> pystr) list"
  template_vars :: "(pystr \<times> pyval) list"

definition deepseek_v31 :: ModelConfig where
  "deepseek_v31 = \<lparr>
     name = U ''DeepSeek V3.1'',
     template_file = U ''deepseek-v3.1.jinja'',
     tokenizer_id = U ''deepseek-ai/DeepSeek-V3.1'',
     bos_token = U ''<'' @ [65372] @ U ''begin'' @ [9601] @ U ''of'' @ [9601] @ U ''sentence'' @ [65372] @ U ''>'',
     eos_token = U ''<'' @ [65372] @ U ''end'' @ [9601] @ U ''of'' @ [9601] @ U ''sentence'' @ [65372] @ U ''>'',
     token_patterns = [
       (U ''<'' @ [65372] @ U ''begin'' @ [9601] @ U ''of'' @ [9601] @ U ''sentence'' @ [65372] @ U ''>'', U ''bos_eos''),
       (U ''<'' @ [65372] @ U ''end'' @ [9601] @ U ''of'' @ [9601] @ U ''sentence'' @ [65372] @ U ''>'', U ''bos_eos''),
       (U ''<'' @ [65372] @ U ''User'' @ [65372] @ U ''>'', U ''role''),
       (U ''<'' @ [65372] @ U ''Assistant'' @ [65372] @ U ''>'', U ''role''),
       (U ''<think>'', U ''think''),
       (U ''</think>'', U ''think''),
       (U ''<'' @ [65372] @ U ''tool'' @ [9601] @ U ''calls'' @ [9601] @ U ''begin'' @ [65372] @ U ''>'', U ''func''),
       (U ''<'' @ [65372] @ U ''tool'' @ [9601] @ U ''calls'' @ [9601] @ U ''end'' @ [65372] @ U ''>'', U ''func''),
       (U ''<'' @ [65372] @ U ''tool'' @ [9601] @ U ''call'' @ [9601] @ U ''begin'' @ [65372] @ U ''>'', U ''func''),
       (U ''<'' @ [65372] @ U ''tool'' @ [9601] @ U ''call'' @ [9601] @ U ''end'' @ [65372] @ U ''>'', U ''func''),
       (U ''<'' @ [65372] @ U ''tool'' @ [9601] @ U ''sep'' @ [65372] @ U ''>'', U ''func''),
       (U ''<'' @ [65372] @ U ''tool'' @ [9601] @ U ''output'' @ [9601] @ U ''begin'' @ [65372] @ U ''>'', U ''func''),
       (U ''<'' @ [65372] @ U ''tool'' @ [9601] @ U ''output'' @ [9601] @ U ''end'' @ [65372] @ U ''>'', U ''func'')],
     template_vars = [(U ''thinking'', PBool True)] \<rparr>"

definition qwen3 :: ModelConfig where
  "qwen3 = \<lparr>
     name = U ''Qwen3'',
     template_file = U ''qwen3.jinja'',
     tokenizer_id = U ''Qwen/Qwen3-235B-A22B'',
     bos_token = [],
     eos_token = U ''<|im_end|>'',
     token_patterns = [
       (U ''<'' @ [92] @ U ''|im_start'' @ [92] @ U ''|>'', U ''bos_eos''),
       (U ''<'' @ [92] @ U ''|im_end'' @ [92] @ U ''|>'', U ''bos_eos''),
       (U ''<'' @ [92] @ U ''|im_start'' @ [92] @ U ''|>system'', U ''role''),
       (U ''<'' @ [92] @ U ''|im_start'' @ [92] @ U ''|>user'', U ''role''),
       (U ''<'' @ [92] @ U ''|im_start'' @ [92] @ U ''|>assistant'', U ''role''),
       (U ''<think>'', U ''think''),
       (U ''</think>'', U ''think''),
       (U ''<tools>'', U ''func''),
       (U ''</tools>'', U ''func''),
       (U ''<tool_call>'', U ''func''),
       (U ''</tool_call>'', U ''func''),
       (U ''<tool_response>'', U ''func''),
       (U ''</tool_response>'', U ''func'')],
     template_vars = [(U ''enable_thinking'', PBool True)] \<rparr>"

definition glm_45 :: ModelConfig where
  "glm_45 = \<lparr>
     name = U ''GLM-4.5'',
     template_file = U ''glm-4.5.jinja'',
     tokenizer_id = U ''zai-org/GLM-4.5'',
     bos_token = U ''[gMASK]<sop>'',
     eos_token = [],
     token_patterns = [
       ([92] @ U ''[gMASK'' @ [92] @ U '']'', U ''bos_eos''),
       (U ''<sop>'', U ''bos_eos''),
       (U ''<'' @ [92] @ U ''|system'' @ [92] @ U ''|>'', U ''role''),
       (U ''<'' @ [92] @ U ''|user'' @ [92] @ U ''|>'', U ''role''),
       (U ''<'' @ [92] @ U ''|assistant'' @ [92] @ U ''|>'', U ''role''),
       (U ''<'' @ [92] @ U ''|observation'' @ [92] @ U ''|>'', U ''role''),
       (U ''<think>'', U ''think''),
       (U ''</think>'', U ''think''),
       (U ''<tools>'', U ''func''),
       (U ''</tools>'', U ''func''),
       (U ''<tool_call>'', U ''func''),
       (U ''</tool_call>'', U ''func''),
       (U ''<tool_response>'', U ''func''),
       (U ''</tool_response>'', U ''func''),
       (U ''<arg_key>'', U ''dsml''),
       (U ''</arg_key>'', U ''dsml''),
       (U ''<arg_value>'', U ''dsml''),
       (U ''</arg_value>'', U ''dsml'')],
     template_vars = [(U ''enable_thinking'', PBool True)] \<rparr>"

definition minimax_m2 :: ModelConfig where
  "minimax_m2 = \<lparr>
     name = U ''MiniMax-M2'',
     template_file = U ''minimax-m2.jinja'',
     tokenizer_id = U ''MiniMaxAI/MiniMax-M2.1'',
     bos_token = U '']~!b['',
     eos_token = U ''[e~['',
     token_patterns = [
       ([92] @ U '']~!b'' @ [92] @ U ''['', U ''bos_eos''),
       ([92] @ U '']~b'' @ [92] @ U '']'', U ''bos_eos''),
       ([92] @ U ''[e~'' @ [92] @ U ''['', U ''bos_eos''),
       ([92] @ U '']~b'' @ [92] @ U '']system'', U ''role''),
       ([92] @ U '']~b'' @ [92] @ U '']user'', U ''role''),
       ([92] @ U '']~b'' @ [92] @ U '']ai'', U ''role''),
       ([92] @ U '']~b'' @ [92] @ U '']tool'', U ''role''),
       (U ''<think>'', U ''think''),
       (U ''</think>'', U ''think''),
       (U ''<tools>'', U ''func''),
       (U ''</tools>'', U ''func''),
       (U ''<tool>'', U ''func''),
       (U ''</tool>'', U ''func''),
       (U ''<minimax:tool_call>'', U ''func''),
       (U ''</minimax:tool_call>'', U ''func''),
       (U ''<invoke[^>]*>'', U ''func''),
       (U ''</invoke>'', U ''func''),
       (U ''<parameter[^>]*>'', U ''dsml''),
       (U ''</parameter>'', U ''dsml''),
       (U ''<response>'', U ''func''),
       (U ''</response>'', U ''func'')],
     template_vars = [] \<rparr>"

definition MODELS :: "(pystr \<times> ModelConfig) list" where
  "MODELS = [
     (U ''deepseek-v3.1'', deepseek_v31),
     (U ''qwen3'', qwen3),
     (U ''glm-4.5'', glm_45),
     (U ''minimax-m2'', minimax_m2)]"


section \<open>The message normalizer (template_renderer.py, prepare_messages)\<close>

text \<open>
  \<open>json.loads\<close> is Python's library, not this repository's code: it is a parameter,
  a function from the text to the decoded value or the exception raised.
\<close>

type_synonym json_loads = "pystr \<Rightarrow> exc + pyval"

text \<open>
  The body of the inner loop: one entry \<open>tc\<close> of a message's \<open>tool_calls\<close>. A \<open>copy\<close>
  method exists on dictionaries and lists only; a list has no \<open>get\<close> and cannot be
  indexed by a string.
\<close>

definition prepare_tool_call :: "json_loads \<Rightarrow> pyval \<Rightarrow> exc + pyval" where
  "prepare_tool_call loads tc =
     (case tc of
        PDict tc_copy \<Rightarrow>
          (case map_of tc_copy (U ''function'') of
             None \<Rightarrow> Inr (PDict tc_copy)
           | Some (PDict func) \<Rightarrow>
               (case map_of func (U ''arguments'') of
                  Some (PStr s) \<Rightarrow>
                    (case loads s of
                       Inr v \<Rightarrow>
                         Inr (PDict (dict_set (U ''function'')
                                (PDict (dict_set (U ''arguments'') v func)) tc_copy))
                     | Inl (JSONDecodeError, m) \<Rightarrow>
                         Inr (PDict (dict_set (U ''function'')
                                (PDict (dict_set (U ''arguments'') (PDict []) func)) tc_copy))
                     | Inl e \<Rightarrow> Inl e)
                | _ \<Rightarrow> Inr (PDict (dict_set (U ''function'') (PDict func) tc_copy)))
           | Some (PList func) \<Rightarrow> Inl (no_attribute (PList func) ''get'')
           | Some v \<Rightarrow> Inl (no_attribute v ''copy''))
      | PList tc_copy \<Rightarrow>
          (if PStr (U ''function'') \<in> set tc_copy then Inl list_index_error
           else Inr (PList tc_copy))
      | _ \<Rightarrow> Inl (no_attribute tc ''copy''))"

text \<open>The body of the outer loop: one message.\<close>

definition prepare_message :: "json_loads \<Rightarrow> pyval \<Rightarrow> exc + pyval" where
  "prepare_message loads msg =
     (case msg of
        PDict msg_copy \<Rightarrow>
          (case map_of msg_copy (U ''tool_calls'') of
             None \<Rightarrow> Inr (PDict msg_copy)
           | Some tcs \<Rightarrow>
               (if truthy tcs then
                  (case py_iter tcs of
                     Inl e \<Rightarrow> Inl e
                   | Inr items \<Rightarrow>
                       (case for_each (prepare_tool_call loads) items of
                          Inl e \<Rightarrow> Inl e
                        | Inr tool_calls \<Rightarrow>
                            Inr (PDict (dict_set (U ''tool_calls'') (PList tool_calls) msg_copy))))
                else Inr (PDict msg_copy)))
      | PList msg_copy \<Rightarrow>
          (if PStr (U ''tool_calls'') \<in> set msg_copy then Inl list_index_error
           else Inr (PList msg_copy))
      | _ \<Rightarrow> Inl (no_attribute msg ''copy''))"

definition prepare_messages :: "json_loads \<Rightarrow> pyval list \<Rightarrow> exc + pyval list" where
  "prepare_messages loads messages = for_each (prepare_message loads) messages"


section \<open>The template renderer (template_renderer.py, render_template)\<close>

text \<open>
  The template engine is Jinja2, a library: \<open>get_template\<close> is a parameter. It either
  raises or returns the loaded template, and a loaded template is what its \<open>render\<close>
  does with a context: it returns the text or raises (also through the
  \<open>raise_exception\<close> helper that the environment gives to templates).
\<close>

type_synonym template_context = "(pystr \<times> pyval) list"
type_synonym template = "template_context \<Rightarrow> exc + pystr"
type_synonym jinja_env = "pystr \<Rightarrow> exc + template"

definition build_context ::
  "ModelConfig \<Rightarrow> pyval list \<Rightarrow> pyval \<Rightarrow> bool \<Rightarrow> template_context \<Rightarrow> template_context" where
  "build_context config prepared_messages tools add_generation_prompt extra_vars =
     dict_merge
       (dict_merge
          [(U ''messages'', PList prepared_messages),
           (U ''tools'', if truthy tools then tools else PNone),
           (U ''add_generation_prompt'', PBool add_generation_prompt),
           (U ''bos_token'', PStr (bos_token config)),
           (U ''eos_token'', PStr (eos_token config))]
          (template_vars config))
       extra_vars"

text \<open>
  \<open>extra_vars\<close> collects the keyword arguments that are not parameters of the function:
  a call that passes one of the four parameter names a second time raises \<open>TypeError\<close>
  before the body runs.
\<close>

definition parameter_names :: "pystr list" where
  "parameter_names = [U ''model_key'', U ''messages'', U ''tools'', U ''add_generation_prompt'']"

definition render_template ::
  "jinja_env \<Rightarrow> json_loads \<Rightarrow> pystr \<Rightarrow> pyval list \<Rightarrow> pyval \<Rightarrow> bool \<Rightarrow> template_context \<Rightarrow> exc + pystr" where
  "render_template get_template loads model_key messages tools add_generation_prompt extra_vars =
     (if \<exists>k \<in> set (map fst extra_vars). k \<in> set parameter_names then
        Inl (TypeError, U ''render_template() got multiple values for keyword argument'')
      else
        (case map_of MODELS model_key of
           None \<Rightarrow> Inl (ValueError, U ''Unknown model: '' @ model_key)
         | Some config \<Rightarrow>
             (case get_template (template_file config) of
                Inl e \<Rightarrow>
                  Inr (U ''Error loading template '' @ template_file config @ U '': '' @ snd e)
              | Inr template \<Rightarrow>
                  (case prepare_messages loads messages of
                     Inl e \<Rightarrow> Inl e
                   | Inr prepared_messages \<Rightarrow>
                       (case template (build_context config prepared_messages tools
                                         add_generation_prompt extra_vars) of
                          Inl e \<Rightarrow> Inr (U ''Error rendering template: '' @ snd e)
                        | Inr prompt \<Rightarrow> Inr prompt)))))"


section \<open>Prompt generation from the session (prompt.py, generate_prompt)\<close>

text \<open>
  The session state after \<open>init_session_state\<close>. Only \<open>selected_model\<close> is ever read
  with a default (\<open>session_state.get\<close>, in the classifier), so it is optional here;
  reading it as an attribute, as \<open>generate_prompt\<close> does, raises when it is absent.
\<close>

record session_state =
  messages :: "pyval list"
  tools :: pyval
  include_tools :: bool
  selected_model :: "pystr option"
  enable_thinking :: bool
  add_generation_prompt :: bool

definition generate_prompt :: "jinja_env \<Rightarrow> json_loads \<Rightarrow> session_state \<Rightarrow> exc + pystr" where
  "generate_prompt get_template loads st =
     (let tools = (if include_tools st \<and> truthy (tools st) then tools st else PNone) in
      case selected_model st of
        None \<Rightarrow> Inl (AttributeError, U ''st.session_state has no attribute selected_model'')
      | Some model_key \<Rightarrow>
          (let template_vars =
                 [(U ''thinking'', PBool (enable_thinking st)),
                  (U ''enable_thinking'', PBool (enable_thinking st))]
           in case render_template get_template loads model_key (messages st) tools
                     (add_generation_prompt st) template_vars of
                Inl e \<Rightarrow> Inr (U ''Error generating prompt: '' @ snd e)
              | Inr prompt \<Rightarrow> Inr prompt))"


section \<open>The token classifier (image_renderer.py, tokenize_with_colors)\<close>

text \<open>
  The functions of Python's \<open>re\<close> module that the classifier and the highlighter call.
  They are library code, so the classifier takes them as a parameter: \<open>finditer\<close> gives
  the spans (start, end) of the matches of a pattern in a text, in the order in which
  the iterator yields them, \<open>fullmatch\<close> tells whether a pattern matches a whole text,
  \<open>sub\<close> replaces the matches by a replacement template. Each of them compiles its
  pattern first and raises \<open>re.error\<close> when the pattern is malformed.
\<close>

record re_module =
  finditer :: "pystr \<Rightarrow> pystr \<Rightarrow> exc + (nat \<times> nat) list"
  fullmatch :: "pystr \<Rightarrow> pystr \<Rightarrow> exc + bool"
  sub :: "pystr \<Rightarrow> pystr \<Rightarrow> pystr \<Rightarrow> exc + pystr"

text \<open>
  \<open>re.escape\<close> (Python 3.7 and later) puts a backslash before each of the characters
  \<open>()[]{}?*+-|^$\.&~#\<close>, the space and the control characters 9 to 13.
\<close>

definition special_chars :: "nat list" where
  "special_chars = U ''()[]{}?*+-|^$'' @ [92] @ U ''.&~# '' @ [9, 10, 13, 11, 12]"

definition re_escape :: "pystr \<Rightarrow> pystr" where
  "re_escape s = concat (map (\<lambda>c. if c \<in> set special_chars then [92, c] else [c]) s)"

text \<open>\<open>text[a:b]\<close> for indices that are not negative.\<close>

definition slice :: "pystr \<Rightarrow> nat \<Rightarrow> nat \<Rightarrow> pystr" where
  "slice text a b = take (b - a) (drop a text)"

fun join :: "pystr \<Rightarrow> pystr list \<Rightarrow> pystr" where
  "join sep [] = []"
| "join sep [x] = x"
| "join sep (x # y # ys) = x @ sep @ join sep (y # ys)"

definition get_token_patterns :: "session_state \<Rightarrow> (pystr \<times> pystr) list" where
  "get_token_patterns st =
     (let model_key = (case selected_model st of None \<Rightarrow> U ''deepseek-v3.1'' | Some k \<Rightarrow> k)
      in case map_of MODELS model_key of
           Some config \<Rightarrow> token_patterns config
         | None \<Rightarrow> [])"

text \<open>The characters whose presence makes the classifier take a pattern as a regular expression.\<close>

definition metacharacters :: "nat list" where
  "metacharacters = U ''+*?[](){}|^$''"

definition regex_patterns :: "(pystr \<times> pystr) list \<Rightarrow> pystr list" where
  "regex_patterns patterns =
     map (\<lambda>(pattern, key).
            if \<exists>c \<in> set metacharacters. c \<in> set pattern then U ''('' @ pattern @ U '')''
            else U ''('' @ re_escape pattern @ U '')'') patterns"

definition combined_pattern :: "(pystr \<times> pystr) list \<Rightarrow> pystr" where
  "combined_pattern patterns = join (U ''|'') (regex_patterns patterns)"

text \<open>
  The inner loop, which determines which pattern matched: the first rule that matches
  the whole matched text, or that equals it when the rule does not compile.
\<close>

fun color_key_of :: "re_module \<Rightarrow> (pystr \<times> pystr) list \<Rightarrow> pystr \<Rightarrow> exc + pystr" where
  "color_key_of re [] matched_text = Inr (U ''text'')"
| "color_key_of re ((pattern, key) # patterns) matched_text =
     (case fullmatch re pattern matched_text of
        Inr True \<Rightarrow> Inr key
      | Inr False \<Rightarrow> color_key_of re patterns matched_text
      | Inl (ReError, m) \<Rightarrow>
          (if pattern = matched_text then Inr key
           else color_key_of re patterns matched_text)
      | Inl e \<Rightarrow> Inl e)"

text \<open>
  The loop over the matches, with its two variables \<open>result\<close> and \<open>last_end\<close>; every
  pass searches the whole rule list \<open>patterns\<close>.
\<close>

fun match_loop ::
  "re_module \<Rightarrow> (pystr \<times> pystr) list \<Rightarrow> pystr \<Rightarrow> (nat \<times> nat) list \<Rightarrow>
   (pystr \<times> pystr) list \<Rightarrow> nat \<Rightarrow> exc + ((pystr \<times> pystr) list \<times> nat)" where
  "match_loop re patterns text [] result last_end = Inr (result, last_end)"
| "match_loop re patterns text ((start, stop) # matches) result last_end =
     (let result1 = (if start > last_end
                     then result @ [(slice text last_end start, U ''text'')] else result);
          matched_text = slice text start stop
      in case color_key_of re patterns matched_text of
           Inl e \<Rightarrow> Inl e
         | Inr color_key \<Rightarrow>
             match_loop re patterns text matches (result1 @ [(matched_text, color_key)]) stop)"

text \<open>
  The function on a given rule list: everything after the first line of the source.
  The outer \<open>try\<close> catches \<open>re.error\<close> only.
\<close>

definition tokenize_patterns ::
  "re_module \<Rightarrow> (pystr \<times> pystr) list \<Rightarrow> pystr \<Rightarrow> exc + (pystr \<times> pystr) list" where
  "tokenize_patterns re patterns text =
     (if patterns = [] then Inr [(text, U ''text'')]
      else
        (case finditer re (combined_pattern patterns) text of
           Inl (ReError, m) \<Rightarrow> Inr [(text, U ''text'')]
         | Inl e \<Rightarrow> Inl e
         | Inr matches \<Rightarrow>
             (case match_loop re patterns text matches [] 0 of
                Inl (ReError, m) \<Rightarrow> Inr [(text, U ''text'')]
              | Inl e \<Rightarrow> Inl e
              | Inr (result, last_end) \<Rightarrow>
                  Inr (if last_end < length text
                       then result @ [(drop last_end text, U ''text'')] else result))))"

definition tokenize_with_colors ::
  "re_module \<Rightarrow> session_state \<Rightarrow> pystr \<Rightarrow> exc + (pystr \<times> pystr) list" where
  "tokenize_with_colors re st text = tokenize_patterns re (get_token_patterns st) text"

text \<open>
  What the library promises of the spans of \<open>finditer\<close>: they lie in the text, from left
  to right, and none starts before the one before it ends.
\<close>

fun spans_in_order :: "nat \<Rightarrow> (nat \<times> nat) list \<Rightarrow> nat \<Rightarrow> bool" where
  "spans_in_order last_end [] n = (last_end \<le> n)"
| "spans_in_order last_end ((start, stop) # matches) n =
     (last_end \<le> start \<and> start \<le> stop \<and> spans_in_order stop matches n)"


subsection \<open>What the classifier is to produce\<close>

text \<open>
  The result of the classifier, stated without its loop variables, for the comparison
  with the code. A rule takes a span when it matches the whole span or, when the rule
  itself does not compile, when it is the span's text; the category of a span is the
  key of the first rule of the list that takes it, and plain text when none does.
\<close>

definition rule_takes :: "re_module \<Rightarrow> pystr \<Rightarrow> pystr \<Rightarrow> bool" where
  "rule_takes re pattern matched =
     (case fullmatch re pattern matched of
        Inr b \<Rightarrow> b
      | Inl (c, m) \<Rightarrow> c = ReError \<and> pattern = matched)"

definition category_of :: "re_module \<Rightarrow> (pystr \<times> pystr) list \<Rightarrow> pystr \<Rightarrow> pystr" where
  "category_of re patterns matched =
     (case find (\<lambda>(pattern, key). rule_takes re pattern matched) patterns of
        Some (pattern, key) \<Rightarrow> key
      | None \<Rightarrow> U ''text'')"

text \<open>
  The segments from index \<open>last_end\<close> on, for the spans still to come: the gap before a
  span as plain text, the span with its category, and at the end the rest as plain text.
\<close>

fun segments_of ::
  "re_module \<Rightarrow> (pystr \<times> pystr) list \<Rightarrow> pystr \<Rightarrow> nat \<Rightarrow> (nat \<times> nat) list \<Rightarrow>
   (pystr \<times> pystr) list" where
  "segments_of re patterns s last_end [] =
     (if last_end < length s then [(drop last_end s, U ''text'')] else [])"
| "segments_of re patterns s last_end ((start, stop) # matches) =
     (if last_end < start then [(slice s last_end start, U ''text'')] else [])
     @ (slice s start stop, category_of re patterns (slice s start stop))
     # segments_of re patterns s stop matches"


section \<open>A model of a fragment of Python's re module\<close>

text \<open>
  To evaluate the classifier and the highlighter on concrete rule lists, as the witnesses
  and the concrete inputs below do, the library needs a model. This one covers the
  patterns built from literal characters, \<open>.\<close>, a backslash before a character that is no
  ASCII letter or digit, character sets \<open>[...]\<close> and \<open>[^...]\<close> of single characters, groups
  \<open>(...)\<close>, alternation \<open>|\<close> and the greedy \<open>*\<close>, \<open>+\<close>, \<open>?\<close>, with the backtracking search of
  the library: alternatives from left to right, a repetition as long as possible first.
  On a malformed pattern of the fragment the model answers \<open>ReError\<close>, as \<open>re.compile\<close>
  raises; on every pattern outside the fragment (anchors, braces, ranges, escapes of
  letters and digits, \<open>(?...)\<close>, lazy and possessive repetition, repetition of something
  that matches the empty string) the model answers \<open>Unmodelled\<close>.
\<close>

datatype regex =
    Chr nat
  | AnyChar
  | CharSet bool "nat list"
  | Eps
  | Seq regex regex
  | Alt regex regex
  | Star regex
  | Group regex

text \<open>
  The result of parsing: the expression, or the message and the position of the
  \<open>re.error\<close> that \<open>re.compile\<close> raises, or that the pattern is outside the fragment.
\<close>

datatype 'a outcome = Ok 'a | Invalid pystr nat | NotCovered

fun nullable :: "regex \<Rightarrow> bool" where
  "nullable (Chr c) = False"
| "nullable AnyChar = False"
| "nullable (CharSet neg cs) = False"
| "nullable Eps = True"
| "nullable (Seq a b) = (nullable a \<and> nullable b)"
| "nullable (Alt a b) = (nullable a \<or> nullable b)"
| "nullable (Star a) = True"
| "nullable (Group a) = nullable a"

subsection \<open>Parsing a pattern\<close>

text \<open>
  The parser reads the pattern from left to right with a stack of open groups. A frame
  holds the finished alternatives of its group and the items of the alternative being
  read, both latest first, whether the last item already carries a repetition, and the
  position of the parenthesis that opened the group. The modes of a character set carry
  the position of its bracket.
\<close>

type_synonym frame = "regex list \<times> regex list \<times> bool \<times> nat"

datatype pmode =
    Normal
  | Escape
  | Opened
  | SetStart nat
  | SetFirst bool nat
  | SetBody bool "nat list" nat
  | SetEscape bool "nat list" nat

fun mk_seq :: "regex list \<Rightarrow> regex" where
  "mk_seq [] = Eps"
| "mk_seq [x] = x"
| "mk_seq (x # xs) = Seq x (mk_seq xs)"

fun mk_alt :: "regex list \<Rightarrow> regex" where
  "mk_alt [] = Eps"
| "mk_alt [x] = x"
| "mk_alt (x # xs) = Alt x (mk_alt xs)"

definition close_frame :: "frame \<Rightarrow> regex" where
  "close_frame f = (case f of (alts, cur, q, opened) \<Rightarrow> mk_alt (rev (mk_seq (rev cur) # alts)))"

definition is_alnum :: "nat \<Rightarrow> bool" where
  "is_alnum c = ((48 \<le> c \<and> c \<le> 57) \<or> (65 \<le> c \<and> c \<le> 90) \<or> (97 \<le> c \<and> c \<le> 122))"

fun push_item :: "regex \<Rightarrow> frame list \<Rightarrow> (pmode \<times> frame list) outcome" where
  "push_item x [] = NotCovered"
| "push_item x ((alts, cur, q, opened) # fs) = Ok (Normal, (alts, x # cur, False, opened) # fs)"

text \<open>
  An error at a repetition character. The library's tokenizer has read the next token by
  then, so a backslash that ends the pattern right after it is reported instead.
\<close>

definition repeat_error :: "string \<Rightarrow> nat \<Rightarrow> pystr \<Rightarrow> (pmode \<times> frame list) outcome" where
  "repeat_error msg pos rest =
     (if rest = [92] then Invalid (U ''bad escape (end of pattern)'') (Suc pos)
      else Invalid (U msg) pos)"

text \<open>A repetition character \<open>c\<close> at position \<open>pos\<close>, before the rest of the pattern.\<close>

fun repeat_item :: "nat \<Rightarrow> nat \<Rightarrow> pystr \<Rightarrow> frame list \<Rightarrow> (pmode \<times> frame list) outcome" where
  "repeat_item c pos rest [] = NotCovered"
| "repeat_item c pos rest ((alts, [], q, opened) # fs) = repeat_error ''nothing to repeat'' pos rest"
| "repeat_item c pos rest ((alts, x # cur, q, opened) # fs) =
     (if q then (if c = 42 then repeat_error ''multiple repeat'' pos rest else NotCovered)
      else if c = 63 then Ok (Normal, (alts, Alt x Eps # cur, True, opened) # fs)
      else if nullable x then NotCovered
      else if c = 42 then Ok (Normal, (alts, Star x # cur, True, opened) # fs)
      else Ok (Normal, (alts, Seq x (Star x) # cur, True, opened) # fs))"

fun normal_step :: "frame list \<Rightarrow> nat \<Rightarrow> nat \<Rightarrow> pystr \<Rightarrow> (pmode \<times> frame list) outcome" where
  "normal_step fs pos c rest =
     (if c = 92 then Ok (Escape, fs)
      else if c = 40 then Ok (Opened, ([], [], False, pos) # fs)
      else if c = 41 then
        (case fs of
           f # (alts, cur, q, opened) # below \<Rightarrow>
             Ok (Normal, (alts, Group (close_frame f) # cur, False, opened) # below)
         | _ \<Rightarrow> Invalid (U ''unbalanced parenthesis'') pos)
      else if c = 124 then
        (case fs of
           (alts, cur, q, opened) # below \<Rightarrow>
             Ok (Normal, (mk_seq (rev cur) # alts, [], False, opened) # below)
         | [] \<Rightarrow> NotCovered)
      else if c = 42 \<or> c = 43 \<or> c = 63 then repeat_item c pos rest fs
      else if c = 91 then Ok (SetStart pos, fs)
      else if c = 123 \<or> c = 94 \<or> c = 36 then NotCovered
      else if c = 46 then push_item AnyChar fs
      else push_item (Chr c) fs)"

fun set_body_step ::
  "bool \<Rightarrow> nat list \<Rightarrow> nat \<Rightarrow> frame list \<Rightarrow> nat \<Rightarrow> (pmode \<times> frame list) outcome" where
  "set_body_step neg items opened fs c =
     (if c = 93 then push_item (CharSet neg items) fs
      else if c = 92 then Ok (SetEscape neg items opened, fs)
      else if c = 45 \<or> c = 91 then NotCovered
      else Ok (SetBody neg (items @ [c]) opened, fs))"

fun set_first_step :: "bool \<Rightarrow> nat \<Rightarrow> frame list \<Rightarrow> nat \<Rightarrow> (pmode \<times> frame list) outcome" where
  "set_first_step neg opened fs c =
     (if c = 93 then NotCovered else set_body_step neg [] opened fs c)"

text \<open>One character \<open>c\<close> at position \<open>pos\<close>, before the rest of the pattern.\<close>

fun parse_step ::
  "pmode \<Rightarrow> frame list \<Rightarrow> nat \<Rightarrow> nat \<Rightarrow> pystr \<Rightarrow> (pmode \<times> frame list) outcome" where
  "parse_step Normal fs pos c rest = normal_step fs pos c rest"
| "parse_step Escape fs pos c rest = (if is_alnum c then NotCovered else push_item (Chr c) fs)"
| "parse_step Opened fs pos c rest = (if c = 63 then NotCovered else normal_step fs pos c rest)"
| "parse_step (SetStart opened) fs pos c rest =
     (if c = 94 then Ok (SetFirst True opened, fs) else set_first_step False opened fs c)"
| "parse_step (SetFirst neg opened) fs pos c rest = set_first_step neg opened fs c"
| "parse_step (SetBody neg items opened) fs pos c rest = set_body_step neg items opened fs c"
| "parse_step (SetEscape neg items opened) fs pos c rest =
     (if is_alnum c then NotCovered else Ok (SetBody neg (items @ [c]) opened, fs))"

text \<open>The end of the pattern, at position \<open>n\<close>.\<close>

fun unterminated_group :: "frame list \<Rightarrow> regex outcome" where
  "unterminated_group [] = NotCovered"
| "unterminated_group ((alts, cur, q, opened) # fs) =
     Invalid (U ''missing ), unterminated subpattern'') opened"

fun parse_end :: "pmode \<Rightarrow> frame list \<Rightarrow> nat \<Rightarrow> regex outcome" where
  "parse_end Normal [f] n = Ok (close_frame f)"
| "parse_end Normal fs n = unterminated_group fs"
| "parse_end Opened fs n = unterminated_group fs"
| "parse_end Escape fs n = Invalid (U ''bad escape (end of pattern)'') (n - 1)"
| "parse_end (SetEscape neg items opened) fs n = Invalid (U ''bad escape (end of pattern)'') (n - 1)"
| "parse_end (SetStart opened) fs n = Invalid (U ''unterminated character set'') opened"
| "parse_end (SetFirst neg opened) fs n = Invalid (U ''unterminated character set'') opened"
| "parse_end (SetBody neg items opened) fs n = Invalid (U ''unterminated character set'') opened"

fun parse_chars :: "pmode \<Rightarrow> frame list \<Rightarrow> nat \<Rightarrow> pystr \<Rightarrow> regex outcome" where
  "parse_chars mode fs pos [] = parse_end mode fs pos"
| "parse_chars mode fs pos (c # cs) =
     (case parse_step mode fs pos c cs of
        Ok (mode', fs') \<Rightarrow> parse_chars mode' fs' (Suc pos) cs
      | Invalid msg p \<Rightarrow> Invalid msg p
      | NotCovered \<Rightarrow> NotCovered)"

definition re_parse :: "pystr \<Rightarrow> regex outcome" where
  "re_parse pattern = parse_chars Normal [([], [], False, 0)] 0 pattern"

text \<open>
  \<open>str(e)\<close> of the \<open>re.error\<close> with message \<open>msg\<close> at position \<open>pos\<close> of \<open>pattern\<close>: the
  position follows the message, and the line and the column as well when the pattern
  has a line break.
\<close>

function show_nat :: "nat \<Rightarrow> pystr" where
  "show_nat n = (if n < 10 then [48 + n] else show_nat (n div 10) @ [48 + n mod 10])"
  by pat_completeness auto
termination
  by (relation "measure id") auto

definition error_text :: "pystr \<Rightarrow> pystr \<Rightarrow> nat \<Rightarrow> pystr" where
  "error_text msg pattern pos =
     (let t = msg @ U '' at position '' @ show_nat pos; upto = take pos pattern
      in if 10 \<in> set pattern
         then t @ U '' (line '' @ show_nat (length (filter (\<lambda>c. c = 10) upto) + 1)
                @ U '', column '' @ show_nat (length (takeWhile (\<lambda>c. c \<noteq> 10) (rev upto)) + 1)
                @ U '')''
         else t)"

subsection \<open>Matching\<close>

text \<open>
  \<open>backtrack r s k\<close> matches \<open>r\<close> at the front of \<open>s\<close> and hands what is left of \<open>s\<close> to the
  continuation \<open>k\<close>; when \<open>k\<close> refuses, the next way to match \<open>r\<close> is tried. A repetition
  only goes round again when the last round has used a character.
\<close>

fun backtrack :: "regex \<Rightarrow> pystr \<Rightarrow> (pystr \<Rightarrow> 'a option) \<Rightarrow> 'a option" where
  "backtrack (Chr c) s k = (case s of [] \<Rightarrow> None | x # xs \<Rightarrow> if x = c then k xs else None)"
| "backtrack AnyChar s k = (case s of [] \<Rightarrow> None | x # xs \<Rightarrow> if x \<noteq> 10 then k xs else None)"
| "backtrack (CharSet neg cs) s k =
     (case s of [] \<Rightarrow> None | x # xs \<Rightarrow> if (x \<in> set cs) \<noteq> neg then k xs else None)"
| "backtrack Eps s k = k s"
| "backtrack (Seq a b) s k = backtrack a s (\<lambda>t. backtrack b t k)"
| "backtrack (Alt a b) s k =
     (case backtrack a s k of Some e \<Rightarrow> Some e | None \<Rightarrow> backtrack b s k)"
| "backtrack (Star a) s k =
     (case backtrack a s (\<lambda>t. if length t < length s then backtrack (Star a) t k else None) of
        Some e \<Rightarrow> Some e
      | None \<Rightarrow> k s)"
| "backtrack (Group a) s k = backtrack a s k"

text \<open>
  The match that starts at the front of \<open>s\<close>, as what it leaves of \<open>s\<close>. With
  \<open>must_advance\<close> an empty match does not count.
\<close>

definition match_here :: "regex \<Rightarrow> pystr \<Rightarrow> bool \<Rightarrow> pystr option" where
  "match_here r s must_advance =
     backtrack r s (\<lambda>t. if must_advance \<and> length t = length s then None else Some t)"

text \<open>
  The scan of \<open>finditer\<close> and \<open>sub\<close> over the text \<open>s\<close> that starts at index \<open>pos\<close>. After an
  empty match the scan stays where it is and must advance; after any other match it goes
  on behind the match. (A match leaves a shorter text or, when it is empty, the same
  text; the tests on the lengths make this plain to the termination proof.)
\<close>

function find_all :: "regex \<Rightarrow> pystr \<Rightarrow> nat \<Rightarrow> bool \<Rightarrow> (nat \<times> nat) list" where
  "find_all r s pos must_advance =
     (case match_here r s must_advance of
        Some t \<Rightarrow>
          (pos, pos + (length s - length t)) #
            (if length t < length s then find_all r t (pos + (length s - length t)) False
             else if must_advance then []
             else find_all r s pos True)
      | None \<Rightarrow> (case s of [] \<Rightarrow> [] | x # xs \<Rightarrow> find_all r xs (Suc pos) False))"
  by pat_completeness auto
termination
  by (relation "measure (\<lambda>(r, s, pos, adv). 2 * length s + (if adv then 0 else 1))") auto

text \<open>
  A replacement template of \<open>sub\<close>: the model covers the templates in which a backslash
  only occurs in \<open>\1\<close>, and the patterns that are one group as a whole, so that group 1 is
  the whole match.
\<close>

fun expand_template :: "pystr \<Rightarrow> pystr \<Rightarrow> pystr option" where
  "expand_template [] g = Some []"
| "expand_template (c # cs) g =
     (if c = 92 then
        (case cs of
           d # ds \<Rightarrow>
             (if d = 49 \<and> (case ds of [] \<Rightarrow> True | e # es \<Rightarrow> \<not> (48 \<le> e \<and> e \<le> 57)) then
                (case expand_template ds g of Some out \<Rightarrow> Some (g @ out) | None \<Rightarrow> None)
              else None)
         | [] \<Rightarrow> None)
      else (case expand_template cs g of Some out \<Rightarrow> Some (c # out) | None \<Rightarrow> None))"

fun replace_all :: "pystr \<Rightarrow> pystr \<Rightarrow> (nat \<times> nat) list \<Rightarrow> nat \<Rightarrow> pystr option" where
  "replace_all repl text [] last_end = Some (drop last_end text)"
| "replace_all repl text ((start, stop) # matches) last_end =
     (case expand_template repl (slice text start stop) of
        Some g \<Rightarrow>
          (case replace_all repl text matches stop of
             Some out \<Rightarrow> Some (slice text last_end start @ g @ out)
           | None \<Rightarrow> None)
      | None \<Rightarrow> None)"

definition not_covered :: exc where
  "not_covered = (Unmodelled, U ''outside the modelled fragment of re'')"

definition py_finditer :: "pystr \<Rightarrow> pystr \<Rightarrow> exc + (nat \<times> nat) list" where
  "py_finditer pattern text =
     (case re_parse pattern of
        Ok r \<Rightarrow> Inr (find_all r text 0 False)
      | Invalid msg pos \<Rightarrow> Inl (ReError, error_text msg pattern pos)
      | NotCovered \<Rightarrow> Inl not_covered)"

definition py_fullmatch :: "pystr \<Rightarrow> pystr \<Rightarrow> exc + bool" where
  "py_fullmatch pattern text =
     (case re_parse pattern of
        Ok r \<Rightarrow> Inr (backtrack r text (\<lambda>t. if t = [] then Some () else None) \<noteq> None)
      | Invalid msg pos \<Rightarrow> Inl (ReError, error_text msg pattern pos)
      | NotCovered \<Rightarrow> Inl not_covered)"

definition py_sub :: "pystr \<Rightarrow> pystr \<Rightarrow> pystr \<Rightarrow> exc + pystr" where
  "py_sub pattern repl text =
     (case re_parse pattern of
        Ok (Group r) \<Rightarrow>
          (case replace_all repl text (find_all (Group r) text 0 False) 0 of
             Some out \<Rightarrow> Inr out
           | None \<Rightarrow> Inl not_covered)
      | Ok r \<Rightarrow> Inl not_covered
      | Invalid msg pos \<Rightarrow> Inl (ReError, error_text msg pattern pos)
      | NotCovered \<Rightarrow> Inl not_covered)"

definition py_re :: re_module where
  "py_re = \<lparr> finditer = py_finditer, fullmatch = py_fullmatch, sub = py_sub \<rparr>"


section \<open>The markup highlighter (highlighter.py, highlight_prompt)\<close>

text \<open>
  \<open>s.replace(old, new)\<close> and \<open>sub in s\<close> of Python's strings: the occurrences of \<open>old\<close>
  are replaced from left to right without overlap; an empty \<open>old\<close> occurs before every
  character and at the end. (An occurrence of a non-empty \<open>old\<close> leaves a shorter text;
  the test on the lengths makes this plain to the termination proof.)
\<close>

fun strip_prefix :: "pystr \<Rightarrow> pystr \<Rightarrow> pystr option" where
  "strip_prefix [] s = Some s"
| "strip_prefix (x # xs) [] = None"
| "strip_prefix (x # xs) (y # ys) = (if x = y then strip_prefix xs ys else None)"

function replace_occurrences :: "pystr \<Rightarrow> pystr \<Rightarrow> pystr \<Rightarrow> pystr" where
  "replace_occurrences old new [] = []"
| "replace_occurrences old new (c # cs) =
     (case strip_prefix old (c # cs) of
        Some rest \<Rightarrow>
          new @ (if length rest \<le> length cs then replace_occurrences old new rest else [])
      | None \<Rightarrow> c # replace_occurrences old new cs)"
  by pat_completeness auto
termination
  by (relation "measure (\<lambda>(old, new, s). length s)") auto

definition str_replace :: "pystr \<Rightarrow> pystr \<Rightarrow> pystr \<Rightarrow> pystr" where
  "str_replace old new s =
     (if old = [] then new @ concat (map (\<lambda>c. c # new) s)
      else replace_occurrences old new s)"

fun str_contains :: "pystr \<Rightarrow> pystr \<Rightarrow> bool" where
  "str_contains [] part = (part = [])"
| "str_contains (x # xs) part = (strip_prefix part (x # xs) \<noteq> None \<or> str_contains xs part)"

definition COLOR_CLASS_MAP :: "(pystr \<times> pystr) list" where
  "COLOR_CLASS_MAP =
     [(U ''bos_eos'', U ''token-bos''),
      (U ''role'', U ''token-role''),
      (U ''think'', U ''token-think''),
      (U ''dsml'', U ''token-dsml''),
      (U ''func'', U ''token-func'')]"

definition escape_html :: "pystr \<Rightarrow> pystr" where
  "escape_html s =
     str_replace (U ''>'') (U ''&gt;'')
       (str_replace (U ''<'') (U ''&lt;'') (str_replace (U ''&'') (U ''&amp;'') s))"

text \<open>The highlighter's list of the characters that make a pattern a regular expression.\<close>

definition highlight_metacharacters :: "nat list" where
  "highlight_metacharacters = U ''+*?[](){}|^$.''"

definition span_open :: "pystr \<Rightarrow> pystr" where
  "span_open css_class = U ''<span class='' @ [34] @ css_class @ [34] @ U ''>''"

text \<open>
  The loop over the rules with its variable \<open>result\<close>. The replacement template is the
  opening tag, \<open>\1\<close> and the closing tag.
\<close>

fun highlight_rules :: "re_module \<Rightarrow> (pystr \<times> pystr) list \<Rightarrow> pystr \<Rightarrow> exc + pystr" where
  "highlight_rules re [] result = Inr result"
| "highlight_rules re ((pattern, color_key) # patterns) result =
     (let css_class = (case map_of COLOR_CLASS_MAP color_key of
                         Some c \<Rightarrow> c | None \<Rightarrow> U ''token-dsml'');
          html_literal = str_replace (U ''>'') (U ''&gt;'') (str_replace (U ''<'') (U ''&lt;'') pattern);
          html_pattern = (if \<not> (\<exists>c \<in> set highlight_metacharacters. c \<in> set pattern)
                          then re_escape html_literal else html_literal)
      in case sub re (U ''('' @ html_pattern @ U '')'')
                (span_open css_class @ [92] @ U ''1</span>'') result of
           Inr result' \<Rightarrow> highlight_rules re patterns result'
         | Inl (ReError, m) \<Rightarrow>
             highlight_rules re patterns
               (if str_contains result html_literal
                then str_replace html_literal
                       (span_open css_class @ html_literal @ U ''</span>'') result
                else result)
         | Inl e \<Rightarrow> Inl e)"

definition highlight_prompt :: "re_module \<Rightarrow> session_state \<Rightarrow> pystr \<Rightarrow> exc + pystr" where
  "highlight_prompt re st s =
     (let escaped = escape_html s; patterns = get_token_patterns st
      in if patterns = [] then Inr escaped else highlight_rules re patterns escaped)"

text \<open>
  What the specification asks of the markup (its HTML adapter): every classified segment
  except plain text is wrapped in the span of its category, and the text of every
  segment is escaped. This definition follows the specification's words, for the
  comparison with \<open>highlight_prompt\<close>.
\<close>

definition spec_markup :: "(pystr \<times> pystr) list \<Rightarrow> pystr" where
  "spec_markup segments =
     concat (map (\<lambda>(part, category).
                    if category = U ''text'' then escape_html part
                    else span_open (case map_of COLOR_CLASS_MAP category of
                                      Some c \<Rightarrow> c | None \<Rightarrow> U ''token-dsml'')
                         @ escape_html part @ U ''</span>'') segments)"


section \<open>The normalizer on a store of objects\<close>

text \<open>
  Python's lists and dictionaries are objects that are shared by reference and changed in
  place, so whether \<open>prepare_messages\<close> changes its input is a question about the store.
  Here a value is an immutable value or a reference, the store is the list of the objects
  allocated so far (a reference is an index into it, a new object goes to the end), and
  every operation of the normalizer takes the store and returns the new one, also when
  it raises.
\<close>

datatype val = VNone | VBool bool | VInt int | VStr pystr | VRef nat

datatype obj = ODict "(pystr \<times> val) list" | OList "val list"

type_synonym store = "obj list"

definition alloc :: "obj \<Rightarrow> store \<Rightarrow> nat \<times> store" where
  "alloc ob h = (length h, h @ [ob])"

definition deref :: "store \<Rightarrow> nat \<Rightarrow> obj option" where
  "deref h a = (if a < length h then Some (h ! a) else None)"

definition dangling :: exc where
  "dangling = (OtherException, U ''reference to no object'')"

text \<open>
  \<open>json.loads\<close> builds new objects: the decoded value, which the parameter gives as a
  tree, is allocated in the store.
\<close>

fun alloc_value :: "pyval \<Rightarrow> store \<Rightarrow> val \<times> store"
  and alloc_values :: "pyval list \<Rightarrow> store \<Rightarrow> val list \<times> store"
  and alloc_items :: "(pystr \<times> pyval) list \<Rightarrow> store \<Rightarrow> (pystr \<times> val) list \<times> store" where
  "alloc_value PNone h = (VNone, h)"
| "alloc_value (PBool b) h = (VBool b, h)"
| "alloc_value (PInt i) h = (VInt i, h)"
| "alloc_value (PStr s) h = (VStr s, h)"
| "alloc_value (PList xs) h =
     (case alloc_values xs h of (vs, h') \<Rightarrow> (case alloc (OList vs) h' of (a, h'') \<Rightarrow> (VRef a, h'')))"
| "alloc_value (PDict kvs) h =
     (case alloc_items kvs h of (items, h') \<Rightarrow>
        (case alloc (ODict items) h' of (a, h'') \<Rightarrow> (VRef a, h'')))"
| "alloc_values [] h = ([], h)"
| "alloc_values (x # xs) h =
     (case alloc_value x h of (v, h') \<Rightarrow> (case alloc_values xs h' of (vs, h'') \<Rightarrow> (v # vs, h'')))"
| "alloc_items [] h = ([], h)"
| "alloc_items ((k, x) # kvs) h =
     (case alloc_value x h of (v, h') \<Rightarrow>
        (case alloc_items kvs h' of (items, h'') \<Rightarrow> ((k, v) # items, h'')))"

text \<open>The type name of a value, for the messages of the exceptions.\<close>

definition type_name_of :: "store \<Rightarrow> val \<Rightarrow> pystr" where
  "type_name_of h v =
     (case v of
        VNone \<Rightarrow> U ''NoneType'' | VBool b \<Rightarrow> U ''bool'' | VInt i \<Rightarrow> U ''int''
      | VStr s \<Rightarrow> U ''str''
      | VRef a \<Rightarrow> (case deref h a of Some (OList xs) \<Rightarrow> U ''list'' | _ \<Rightarrow> U ''dict''))"

definition no_attribute_of :: "store \<Rightarrow> val \<Rightarrow> string \<Rightarrow> exc" where
  "no_attribute_of h v a =
     (AttributeError, quoted (type_name_of h v) @ U '' object has no attribute '' @ quoted (U a))"

text \<open>\<open>v.copy()\<close>: a new object with the same entries; only lists and dictionaries have it.\<close>

definition copy_object :: "val \<Rightarrow> store \<Rightarrow> (exc + nat) \<times> store" where
  "copy_object v h =
     (case v of
        VRef a \<Rightarrow>
          (case deref h a of
             Some ob \<Rightarrow> (case alloc ob h of (a', h') \<Rightarrow> (Inr a', h'))
           | None \<Rightarrow> (Inl dangling, h))
      | _ \<Rightarrow> (Inl (no_attribute_of h v ''copy''), h))"

text \<open>\<open>d[k] = v\<close> for the dictionary at \<open>a\<close>, and \<open>xs.append(v)\<close> for the list at \<open>a\<close>.\<close>

definition set_item :: "nat \<Rightarrow> pystr \<Rightarrow> val \<Rightarrow> store \<Rightarrow> store" where
  "set_item a k v h =
     (case deref h a of
        Some (ODict kvs) \<Rightarrow> h[a := ODict (AList.update k v kvs)]
      | _ \<Rightarrow> h)"

definition append_item :: "nat \<Rightarrow> val \<Rightarrow> store \<Rightarrow> store" where
  "append_item a v h =
     (case deref h a of
        Some (OList xs) \<Rightarrow> h[a := OList (xs @ [v])]
      | _ \<Rightarrow> h)"

definition truthy_of :: "store \<Rightarrow> val \<Rightarrow> bool" where
  "truthy_of h v =
     (case v of
        VNone \<Rightarrow> False | VBool b \<Rightarrow> b | VInt i \<Rightarrow> i \<noteq> 0 | VStr s \<Rightarrow> s \<noteq> []
      | VRef a \<Rightarrow>
          (case deref h a of
             Some (OList xs) \<Rightarrow> xs \<noteq> [] | Some (ODict kvs) \<Rightarrow> kvs \<noteq> [] | None \<Rightarrow> False))"

definition iterate :: "store \<Rightarrow> val \<Rightarrow> exc + val list" where
  "iterate h v =
     (case v of
        VStr s \<Rightarrow> Inr (map (\<lambda>c. VStr [c]) s)
      | VRef a \<Rightarrow>
          (case deref h a of
             Some (OList xs) \<Rightarrow> Inr xs
           | Some (ODict kvs) \<Rightarrow> Inr (map (\<lambda>(k, x). VStr k) kvs)
           | None \<Rightarrow> Inl dangling)
      | _ \<Rightarrow> Inl (TypeError, quoted (type_name_of h v) @ U '' object is not iterable''))"

text \<open>
  A \<open>for\<close> loop that appends the result of its body to the list at \<open>target\<close>; an exception
  of the body ends it.
\<close>

fun append_each ::
  "(val \<Rightarrow> store \<Rightarrow> (exc + val) \<times> store) \<Rightarrow> nat \<Rightarrow> val list \<Rightarrow> store \<Rightarrow> (exc + unit) \<times> store" where
  "append_each body target [] h = (Inr (), h)"
| "append_each body target (x # xs) h =
     (case body x h of
        (Inl e, h') \<Rightarrow> (Inl e, h')
      | (Inr y, h') \<Rightarrow> append_each body target xs (append_item target y h'))"

text \<open>The body of the inner loop, from \<open>tc_copy = tc.copy()\<close> to the value that is appended.\<close>

definition prepare_tool_call_st :: "json_loads \<Rightarrow> val \<Rightarrow> store \<Rightarrow> (exc + val) \<times> store" where
  "prepare_tool_call_st loads tc h =
     (case copy_object tc h of
        (Inl e, h1) \<Rightarrow> (Inl e, h1)
      | (Inr tc_copy, h1) \<Rightarrow>
          (case deref h1 tc_copy of
             Some (OList items) \<Rightarrow>
               (if VStr (U ''function'') \<in> set items then (Inl list_index_error, h1)
                else (Inr (VRef tc_copy), h1))
           | Some (ODict entries) \<Rightarrow>
               (case map_of entries (U ''function'') of
                  None \<Rightarrow> (Inr (VRef tc_copy), h1)
                | Some fv \<Rightarrow>
                    (case copy_object fv h1 of
                       (Inl e, h2) \<Rightarrow> (Inl e, h2)
                     | (Inr func, h2) \<Rightarrow>
                         (case deref h2 func of
                            Some (ODict fentries) \<Rightarrow>
                              (case map_of fentries (U ''arguments'') of
                                 Some (VStr s) \<Rightarrow>
                                   (case loads s of
                                      Inr decoded \<Rightarrow>
                                        (case alloc_value decoded h2 of
                                           (v, h3) \<Rightarrow>
                                             (Inr (VRef tc_copy),
                                              set_item tc_copy (U ''function'') (VRef func)
                                                (set_item func (U ''arguments'') v h3)))
                                    | Inl (JSONDecodeError, m) \<Rightarrow>
                                        (case alloc (ODict []) h2 of
                                           (fresh, h3) \<Rightarrow>
                                             (Inr (VRef tc_copy),
                                              set_item tc_copy (U ''function'') (VRef func)
                                                (set_item func (U ''arguments'') (VRef fresh) h3)))
                                    | Inl e \<Rightarrow> (Inl e, h2))
                               | _ \<Rightarrow>
                                   (Inr (VRef tc_copy),
                                    set_item tc_copy (U ''function'') (VRef func) h2))
                          | _ \<Rightarrow> (Inl (no_attribute_of h2 (VRef func) ''get''), h2))))
           | None \<Rightarrow> (Inl dangling, h1)))"

text \<open>The body of the outer loop, from \<open>msg_copy = msg.copy()\<close> to the value that is appended.\<close>

definition prepare_message_st :: "json_loads \<Rightarrow> val \<Rightarrow> store \<Rightarrow> (exc + val) \<times> store" where
  "prepare_message_st loads msg h =
     (case copy_object msg h of
        (Inl e, h1) \<Rightarrow> (Inl e, h1)
      | (Inr msg_copy, h1) \<Rightarrow>
          (case deref h1 msg_copy of
             Some (OList items) \<Rightarrow>
               (if VStr (U ''tool_calls'') \<in> set items then (Inl list_index_error, h1)
                else (Inr (VRef msg_copy), h1))
           | Some (ODict entries) \<Rightarrow>
               (case map_of entries (U ''tool_calls'') of
                  None \<Rightarrow> (Inr (VRef msg_copy), h1)
                | Some tcs \<Rightarrow>
                    (if truthy_of h1 tcs then
                       (case alloc (OList []) h1 of
                          (tool_calls, h2) \<Rightarrow>
                            (case iterate h2 tcs of
                               Inl e \<Rightarrow> (Inl e, h2)
                             | Inr items \<Rightarrow>
                                 (case append_each (prepare_tool_call_st loads) tool_calls items h2 of
                                    (Inl e, h3) \<Rightarrow> (Inl e, h3)
                                  | (Inr u, h3) \<Rightarrow>
                                      (Inr (VRef msg_copy),
                                       set_item msg_copy (U ''tool_calls'') (VRef tool_calls) h3))))
                     else (Inr (VRef msg_copy), h1)))
           | None \<Rightarrow> (Inl dangling, h1)))"

definition prepare_messages_st :: "json_loads \<Rightarrow> val \<Rightarrow> store \<Rightarrow> (exc + val) \<times> store" where
  "prepare_messages_st loads msgs h =
     (case alloc (OList []) h of
        (prepared, h1) \<Rightarrow>
          (case iterate h1 msgs of
             Inl e \<Rightarrow> (Inl e, h1)
           | Inr items \<Rightarrow>
               (case append_each (prepare_message_st loads) prepared items h1 of
                  (Inl e, h2) \<Rightarrow> (Inl e, h2)
                | (Inr u, h2) \<Rightarrow> (Inr (VRef prepared), h2))))"

subsection \<open>What a value of the store reads as\<close>

text \<open>
  The values of the store are related to the values that \<open>prepare_messages\<close> is defined on
  above: \<open>denotes P h v x\<close> says that following the references from \<open>v\<close> in the store \<open>h\<close>
  gives the tree \<open>x\<close>, and that every object read on the way has an address in \<open>P\<close>. A
  reference to no object, or a cycle, denotes nothing.
\<close>

inductive denotes :: "(nat \<Rightarrow> bool) \<Rightarrow> store \<Rightarrow> val \<Rightarrow> pyval \<Rightarrow> bool"
  and denotes_list :: "(nat \<Rightarrow> bool) \<Rightarrow> store \<Rightarrow> val list \<Rightarrow> pyval list \<Rightarrow> bool"
  and denotes_items ::
    "(nat \<Rightarrow> bool) \<Rightarrow> store \<Rightarrow> (pystr \<times> val) list \<Rightarrow> (pystr \<times> pyval) list \<Rightarrow> bool"
  for P :: "nat \<Rightarrow> bool" and h :: store where
  none: "denotes P h VNone PNone"
| bool: "denotes P h (VBool b) (PBool b)"
| int: "denotes P h (VInt i) (PInt i)"
| str: "denotes P h (VStr s) (PStr s)"
| list: "P a \<Longrightarrow> deref h a = Some (OList vs) \<Longrightarrow> denotes_list P h vs xs
    \<Longrightarrow> denotes P h (VRef a) (PList xs)"
| dict: "P a \<Longrightarrow> deref h a = Some (ODict entries) \<Longrightarrow> denotes_items P h entries kvs
    \<Longrightarrow> denotes P h (VRef a) (PDict kvs)"
| nil: "denotes_list P h [] []"
| cons: "denotes P h v x \<Longrightarrow> denotes_list P h vs xs \<Longrightarrow> denotes_list P h (v # vs) (x # xs)"
| no_items: "denotes_items P h [] []"
| item: "denotes P h v x \<Longrightarrow> denotes_items P h entries kvs
    \<Longrightarrow> denotes_items P h ((k, v) # entries) ((k, x) # kvs)"

code_pred denotes .

definition reads :: "store \<Rightarrow> val \<Rightarrow> pyval \<Rightarrow> bool" where
  "reads h v x = denotes (\<lambda>a. True) h v x"

subsection \<open>An example store\<close>

text \<open>
  One assistant message with one tool call whose arguments are the JSON text \<open>[1]\<close>:
  the list of messages is object 0, the message object 1, its list of tool calls object 2,
  the tool call object 3 and its function object 4.
\<close>

definition example_loads :: json_loads where
  "example_loads s =
     (if s = U ''[1]'' then Inr (PList [PInt 1]) else Inl (JSONDecodeError, U ''Expecting value''))"

definition example_store :: store where
  "example_store =
     [OList [VRef 1],
      ODict [(U ''role'', VStr (U ''assistant'')), (U ''tool_calls'', VRef 2)],
      OList [VRef 3],
      ODict [(U ''function'', VRef 4)],
      ODict [(U ''name'', VStr (U ''get'')), (U ''arguments'', VStr (U ''[1]''))]]"

text \<open>The objects that the call adds: the returned list is object 5.\<close>

definition example_new_objects :: store where
  "example_new_objects =
     [OList [VRef 6],
      ODict [(U ''role'', VStr (U ''assistant'')), (U ''tool_calls'', VRef 7)],
      OList [VRef 8],
      ODict [(U ''function'', VRef 9)],
      ODict [(U ''name'', VStr (U ''get'')), (U ''arguments'', VRef 10)],
      OList [VInt 1]]"

text \<open>The message of the example as a tree, before and after the normalizer.\<close>

definition example_messages :: "pyval list" where
  "example_messages =
     [PDict [(U ''role'', PStr (U ''assistant'')),
        (U ''tool_calls'', PList [PDict [(U ''function'',
           PDict [(U ''name'', PStr (U ''get'')), (U ''arguments'', PStr (U ''[1]''))])]])]]"

definition example_prepared :: "pyval list" where
  "example_prepared =
     [PDict [(U ''role'', PStr (U ''assistant'')),
        (U ''tool_calls'', PList [PDict [(U ''function'',
           PDict [(U ''name'', PStr (U ''get'')), (U ''arguments'', PList [PInt 1])])]])]]"


section \<open>Unknown models\<close>

lemma generate_prompt_args_ok:
  "\<not> (\<exists>k \<in> set (map fst [(U ''thinking'', PBool b), (U ''enable_thinking'', PBool b)]).
        k \<in> set parameter_names)"
  by (simp add: parameter_names_def)

text \<open>
  C1. For every session (every list of messages, every tool list and every flag) whose
  selected model identifier is not a key of the registry, prompt generation returns a
  string and raises nothing: \<open>render_template\<close> raises \<open>ValueError\<close> with the message
  "Unknown model: <identifier>", which \<open>generate_prompt\<close> catches and returns behind
  "Error generating prompt: ". The returned string contains the identifier.
\<close>

theorem unknown_model_returns_error_string:
  assumes "selected_model st = Some model_key"
    and "map_of MODELS model_key = None"
  shows "generate_prompt get_template loads st =
           Inr (U ''Error generating prompt: '' @ U ''Unknown model: '' @ model_key)
         \<and> sublist model_key (U ''Error generating prompt: '' @ U ''Unknown model: '' @ model_key)
         \<and> render_template get_template loads model_key (messages st) tls agp
              [(U ''thinking'', PBool b), (U ''enable_thinking'', PBool b)]
            = Inl (ValueError, U ''Unknown model: '' @ model_key)"
proof -
  have r: "render_template get_template loads model_key ms tl ag
              [(U ''thinking'', PBool c), (U ''enable_thinking'', PBool c)]
            = Inl (ValueError, U ''Unknown model: '' @ model_key)" for ms tl ag c
    unfolding render_template_def using assms(2) generate_prompt_args_ok[of c]
    by (simp only: if_False option.case)
  have "generate_prompt get_template loads st =
           Inr (U ''Error generating prompt: '' @ U ''Unknown model: '' @ model_key)"
    unfolding generate_prompt_def Let_def using assms(1) r
    by (simp only: option.case sum.case snd_conv)
  moreover have "sublist model_key (U ''Error generating prompt: '' @ U ''Unknown model: '' @ model_key)"
    by (metis sublist_appendI append_Nil2 append_assoc)
  ultimately show ?thesis using r by blast
qed

theorem unknown_model_returns_error_string_witness:
  "selected_model \<lparr>messages = [PDict [(U ''role'', PStr (U ''user''))]], tools = PList [],
       include_tools = True, selected_model = Some (U ''gpt-2''), enable_thinking = True,
       add_generation_prompt = False\<rparr> = Some (U ''gpt-2'')
   \<and> map_of MODELS (U ''gpt-2'') = None
   \<and> generate_prompt (\<lambda>f. Inl (OtherException, f)) (\<lambda>s. Inr PNone)
       \<lparr>messages = [PDict [(U ''role'', PStr (U ''user''))]], tools = PList [],
        include_tools = True, selected_model = Some (U ''gpt-2''), enable_thinking = True,
        add_generation_prompt = False\<rparr>
     = Inr (U ''Error generating prompt: Unknown model: gpt-2'')"
proof -
  have k: "map_of MODELS (U ''gpt-2'') = None"
    by (simp add: MODELS_def)
  show ?thesis
    using unknown_model_returns_error_string
      [of "\<lparr>messages = [PDict [(U ''role'', PStr (U ''user''))]], tools = PList [],
            include_tools = True, selected_model = Some (U ''gpt-2''), enable_thinking = True,
            add_generation_prompt = False\<rparr>" "U ''gpt-2''"
          "\<lambda>f. Inl (OtherException, f)" "\<lambda>s. Inr PNone", OF _ k] k
    by simp
qed


section \<open>Failures of the template engine\<close>

text \<open>
  C4. For every known model and every call of the renderer: when loading the model's
  template raises an exception with message \<open>m\<close>, the renderer returns the string
  "Error loading template <file>: <m>"; when the template loads, the messages
  normalize and executing the template raises an exception with message \<open>m\<close> (also one
  raised by the template itself), the renderer returns "Error rendering template: <m>".
  Both results are returned strings that contain the message; nothing is raised.
\<close>

theorem template_failures_become_error_strings:
  assumes "map_of MODELS model_key = Some config"
    and "\<not> (\<exists>k \<in> set (map fst extra_vars). k \<in> set parameter_names)"
  shows "(get_template (template_file config) = Inl (c, m) \<longrightarrow>
            render_template get_template loads model_key msgs tls agp extra_vars
              = Inr (U ''Error loading template '' @ template_file config @ U '': '' @ m)
            \<and> sublist m (U ''Error loading template '' @ template_file config @ U '': '' @ m))
       \<and> (get_template (template_file config) = Inr template
            \<and> prepare_messages loads msgs = Inr prepared
            \<and> template (build_context config prepared tls agp extra_vars) = Inl (c, m) \<longrightarrow>
            render_template get_template loads model_key msgs tls agp extra_vars
              = Inr (U ''Error rendering template: '' @ m)
            \<and> sublist m (U ''Error rendering template: '' @ m))"
proof (intro conjI impI)
  assume "get_template (template_file config) = Inl (c, m)"
  then show "render_template get_template loads model_key msgs tls agp extra_vars
              = Inr (U ''Error loading template '' @ template_file config @ U '': '' @ m)"
    unfolding render_template_def using assms
    by (simp only: if_False option.case sum.case snd_conv)
next
  show "sublist m (U ''Error loading template '' @ template_file config @ U '': '' @ m)"
    by (metis sublist_appendI append_Nil2 append_assoc)
next
  assume "get_template (template_file config) = Inr template
            \<and> prepare_messages loads msgs = Inr prepared
            \<and> template (build_context config prepared tls agp extra_vars) = Inl (c, m)"
  then show "render_template get_template loads model_key msgs tls agp extra_vars
              = Inr (U ''Error rendering template: '' @ m)"
    unfolding render_template_def using assms
    by (simp only: if_False option.case sum.case snd_conv)
next
  show "sublist m (U ''Error rendering template: '' @ m)"
    by (metis sublist_appendI append_Nil2)
qed


theorem template_failures_become_error_strings_witness:
  "map_of MODELS (U ''glm-4.5'') = Some glm_45
   \<and> \<not> (\<exists>k \<in> set (map fst [(U ''thinking'', PBool True)]). k \<in> set parameter_names)
   \<and> render_template (\<lambda>f. Inl (OtherException, U ''not found'')) (\<lambda>s. Inr PNone)
         (U ''glm-4.5'') [] PNone True [(U ''thinking'', PBool True)]
       = Inr (U ''Error loading template glm-4.5.jinja: not found'')
   \<and> prepare_messages (\<lambda>s. Inr PNone) [] = Inr []
   \<and> render_template (\<lambda>f. Inr (\<lambda>ctx. Inl (ValueError, U ''first message must be system'')))
         (\<lambda>s. Inr PNone) (U ''glm-4.5'') [] PNone True [(U ''thinking'', PBool True)]
       = Inr (U ''Error rendering template: first message must be system'')"
proof -
  have h1: "map_of MODELS (U ''glm-4.5'') = Some glm_45"
    by (simp add: MODELS_def)
  have h2: "\<not> (\<exists>k \<in> set (map fst [(U ''thinking'', PBool True)]). k \<in> set parameter_names)"
    by (simp add: parameter_names_def)
  have h3: "prepare_messages (\<lambda>s. Inr PNone) [] = Inr []"
    by (simp add: prepare_messages_def)
  have f: "template_file glm_45 = U ''glm-4.5.jinja''"
    by (simp add: glm_45_def)
  have a: "render_template (\<lambda>f. Inl (OtherException, U ''not found'')) (\<lambda>s. Inr PNone)
         (U ''glm-4.5'') [] PNone True [(U ''thinking'', PBool True)]
       = Inr (U ''Error loading template glm-4.5.jinja: not found'')"
    using template_failures_become_error_strings
      [where get_template = "\<lambda>f. Inl (OtherException, U ''not found'')"
         and c = OtherException and m = "U ''not found''" and loads = "\<lambda>s. Inr PNone"
         and msgs = "[]" and tls = PNone and agp = True, OF h1 h2] f
    by simp
  have b: "render_template (\<lambda>f. Inr (\<lambda>ctx. Inl (ValueError, U ''first message must be system'')))
         (\<lambda>s. Inr PNone) (U ''glm-4.5'') [] PNone True [(U ''thinking'', PBool True)]
       = Inr (U ''Error rendering template: first message must be system'')"
    using template_failures_become_error_strings
      [where get_template = "\<lambda>f. Inr (\<lambda>ctx. Inl (ValueError, U ''first message must be system''))"
         and template = "\<lambda>ctx. Inl (ValueError, U ''first message must be system'')"
         and c = ValueError and m = "U ''first message must be system''"
         and loads = "\<lambda>s. Inr PNone" and prepared = "[]"
         and msgs = "[]" and tls = PNone and agp = True, OF h1 h2] h3
    by simp
  show ?thesis by (intro conjI h1 h2 h3 a b)
qed


section \<open>The template context\<close>

lemma map_of_dict_set: "map_of (dict_set k v d) = (map_of d)(k \<mapsto> v)"
  by (simp add: dict_set_def update_conv')

lemma map_of_dict_merge:
  "map_of (dict_merge d e) k = (case map_of (rev e) k of Some v \<Rightarrow> Some v | None \<Rightarrow> map_of d k)"
proof (induction e arbitrary: d)
  case Nil
  then show ?case by (simp add: dict_merge_def)
next
  case (Cons x e)
  obtain a b where x: "x = (a, b)" by (cases x)
  have "dict_merge d (x # e) = dict_merge (dict_set a b d) e"
    by (simp add: dict_merge_def x)
  then show ?case using Cons[of "dict_set a b d"]
    by (auto simp: x map_of_dict_set map_add_def split: option.splits)
qed

lemma registry_configs:
  "map_of MODELS model_key = Some config \<Longrightarrow>
     config = deepseek_v31 \<or> config = qwen3 \<or> config = glm_45 \<or> config = minimax_m2"
  by (auto simp: MODELS_def split: if_splits)

lemma registry_template_vars:
  assumes "map_of MODELS model_key = Some config"
  shows "map_of (rev (template_vars config)) (U ''tools'') = None"
  using registry_configs[OF assms]
  by (auto simp: deepseek_v31_def qwen3_def glm_45_def minimax_m2_def)


lemma map_of_rev_distinct:
  assumes "distinct (map fst e)"
  shows "map_of (rev e) k = map_of e k"
proof -
  have d: "distinct (map fst (rev e))" using assms by (simp add: rev_map[symmetric])
  show ?thesis
  proof (cases "map_of e k")
    case None
    then have "k \<notin> fst ` set (rev e)" by (simp add: map_of_eq_None_iff)
    then have "map_of (rev e) k = None" by (simp only: map_of_eq_None_iff not_False_eq_True)
    then show ?thesis using None by simp
  next
    case (Some v)
    have "(k, v) \<in> set e" by (rule map_of_SomeD[OF Some])
    then have "(k, v) \<in> set (rev e)" by simp
    then have "map_of (rev e) k = Some v" by (rule map_of_is_SomeI[OF d])
    then show ?thesis by (simp only: Some)
  qed
qed

text \<open>
  C8. For every render of a known model that reaches template execution, the template
  runs on the context built here, in which (1) the name \<open>tools\<close> is bound to \<open>None\<close>
  whenever the caller passes no tools (\<open>None\<close>) or an empty list, and (2) every
  caller-supplied keyword variable has the caller's value, whatever the model's default
  of the same name is. The keyword variables of a call are the entries of a dictionary
  (distinct names) and none of them is a parameter name of the function.
\<close>

theorem context_binds_tools_and_flags:
  assumes "map_of MODELS model_key = Some config"
    and "\<not> (\<exists>k \<in> set (map fst extra_vars). k \<in> set parameter_names)"
    and "distinct (map fst extra_vars)"
    and "get_template (template_file config) = Inr template"
    and "prepare_messages loads msgs = Inr prepared"
  shows "render_template get_template loads model_key msgs tls agp extra_vars
           = (case template (build_context config prepared tls agp extra_vars) of
                Inl e \<Rightarrow> Inr (U ''Error rendering template: '' @ snd e)
              | Inr prompt \<Rightarrow> Inr prompt)
       \<and> (tls = PNone \<or> tls = PList [] \<longrightarrow>
            map_of (build_context config prepared tls agp extra_vars) (U ''tools'') = Some PNone)
       \<and> (\<forall>k v. map_of extra_vars k = Some v \<longrightarrow>
            map_of (build_context config prepared tls agp extra_vars) k = Some v)"
proof (intro conjI impI allI)
  show "render_template get_template loads model_key msgs tls agp extra_vars
           = (case template (build_context config prepared tls agp extra_vars) of
                Inl e \<Rightarrow> Inr (U ''Error rendering template: '' @ snd e)
              | Inr prompt \<Rightarrow> Inr prompt)"
    unfolding render_template_def using assms
    by (simp only: if_False option.case sum.case)
next
  assume t: "tls = PNone \<or> tls = PList []"
  have "U ''tools'' \<in> set parameter_names" by (simp add: parameter_names_def)
  then have "U ''tools'' \<notin> fst ` set extra_vars" using assms(2) by auto
  then have e: "map_of (rev extra_vars) (U ''tools'') = None"
    by (simp add: map_of_eq_None_iff)
  have f: "\<not> truthy tls" using t by auto
  show "map_of (build_context config prepared tls agp extra_vars) (U ''tools'') = Some PNone"
    unfolding build_context_def
    using e f registry_template_vars[OF assms(1)]
    by (simp add: map_of_dict_merge)
next
  fix k v assume "map_of extra_vars k = Some v"
  then show "map_of (build_context config prepared tls agp extra_vars) k = Some v"
    unfolding build_context_def
    by (simp add: map_of_dict_merge[where e = extra_vars] map_of_rev_distinct[OF assms(3)])
qed


theorem context_binds_tools_and_flags_witness:
  "map_of MODELS (U ''qwen3'') = Some qwen3
   \<and> \<not> (\<exists>k \<in> set (map fst [(U ''enable_thinking'', PBool False)]). k \<in> set parameter_names)
   \<and> distinct (map fst [(U ''enable_thinking'', PBool False)])
   \<and> (\<lambda>f. Inr (\<lambda>ctx. Inr f)) (template_file qwen3) = Inr (\<lambda>ctx. Inr (template_file qwen3))
   \<and> prepare_messages (\<lambda>s. Inr PNone) [] = Inr []
   \<and> map_of (template_vars qwen3) (U ''enable_thinking'') = Some (PBool True)
   \<and> map_of (build_context qwen3 [] (PList []) True [(U ''enable_thinking'', PBool False)])
        (U ''tools'') = Some PNone
   \<and> map_of (build_context qwen3 [] (PList []) True [(U ''enable_thinking'', PBool False)])
        (U ''enable_thinking'') = Some (PBool False)"
proof -
  have h1: "map_of MODELS (U ''qwen3'') = Some qwen3"
    by (simp add: MODELS_def)
  have h2: "\<not> (\<exists>k \<in> set (map fst [(U ''enable_thinking'', PBool False)]). k \<in> set parameter_names)"
    by (simp add: parameter_names_def)
  have h3: "distinct (map fst [(U ''enable_thinking'', PBool False)])"
    by simp
  have h4: "(\<lambda>f. Inr (\<lambda>ctx. Inr f)) (template_file qwen3) = Inr (\<lambda>ctx. Inr (template_file qwen3))"
    by simp
  have h5: "prepare_messages (\<lambda>s. Inr PNone) [] = Inr []"
    by (simp add: prepare_messages_def)
  have h6: "map_of (template_vars qwen3) (U ''enable_thinking'') = Some (PBool True)"
    by (simp add: qwen3_def)
  have e: "map_of [(U ''enable_thinking'', PBool False)] (U ''enable_thinking'') = Some (PBool False)"
    by simp
  note t = context_binds_tools_and_flags
      [where get_template = "\<lambda>f. Inr (\<lambda>ctx. Inr f)" and tls = "PList []" and agp = True,
       OF h1 h2 h3 h4 h5]
  from t have a: "map_of (build_context qwen3 [] (PList []) True [(U ''enable_thinking'', PBool False)])
        (U ''tools'') = Some PNone" by (elim conjE) (erule mp, rule disjI2, rule refl)
  from t have "\<forall>k v. map_of [(U ''enable_thinking'', PBool False)] k = Some v \<longrightarrow>
      map_of (build_context qwen3 [] (PList []) True [(U ''enable_thinking'', PBool False)]) k = Some v"
    by (elim conjE)
  then have b: "map_of (build_context qwen3 [] (PList []) True [(U ''enable_thinking'', PBool False)])
        (U ''enable_thinking'') = Some (PBool False)" using e by (elim allE) (erule mp)
  show ?thesis by (intro conjI h1 h2 h3 h4 h5 h6 a b)
qed


section \<open>Normalization of tool-call arguments\<close>

lemma for_each_append:
  "for_each f (xs @ ys) =
     (case for_each f xs of
        Inl e \<Rightarrow> Inl e
      | Inr xs' \<Rightarrow> (case for_each f ys of Inl e \<Rightarrow> Inl e | Inr ys' \<Rightarrow> Inr (xs' @ ys')))"
  by (induction xs) (auto split: sum.splits)

lemma for_each_middle:
  assumes "for_each f xs = Inr xs'" and "f x = Inr x'" and "for_each f ys = Inr ys'"
  shows "for_each f (xs @ x # ys) = Inr (xs' @ x' # ys')"
  using assms by (simp add: for_each_append)

lemma prepare_tool_call_decoded:
  assumes "map_of tc (U ''function'') = Some (PDict func)"
    and "map_of func (U ''arguments'') = Some (PStr s)"
    and "loads s = Inr v"
  shows "prepare_tool_call loads (PDict tc) =
           Inr (PDict (dict_set (U ''function'') (PDict (dict_set (U ''arguments'') v func)) tc))"
  using assms unfolding prepare_tool_call_def by simp

lemma prepare_tool_call_undecodable:
  assumes "map_of tc (U ''function'') = Some (PDict func)"
    and "map_of func (U ''arguments'') = Some (PStr s)"
    and "loads s = Inl (JSONDecodeError, m)"
  shows "prepare_tool_call loads (PDict tc) =
           Inr (PDict (dict_set (U ''function'') (PDict (dict_set (U ''arguments'') (PDict []) func)) tc))"
  using assms unfolding prepare_tool_call_def by simp

lemma prepare_message_tool_calls:
  assumes "map_of msg (U ''tool_calls'') = Some (PList (pre @ tc # post))"
    and "for_each (prepare_tool_call loads) pre = Inr pre'"
    and "prepare_tool_call loads tc = Inr tc'"
    and "for_each (prepare_tool_call loads) post = Inr post'"
  shows "prepare_message loads (PDict msg) =
           Inr (PDict (dict_set (U ''tool_calls'') (PList (pre' @ tc' # post')) msg))"
  using assms(1) for_each_middle[OF assms(2,3,4)] unfolding prepare_message_def by simp


lemma map_of_dict_set_same: "map_of (dict_set k v d) k = Some v"
  by (simp add: dict_set_def update_conv')

text \<open>
  C5. In any message list, take a message whose \<open>tool_calls\<close> list holds a call whose
  \<open>function\<close> has string-encoded \<open>arguments\<close>. When the JSON decoder accepts the string
  (as it does for the text \<open>{"query": "x"}\<close>, giving the mapping of \<open>query\<close> to \<open>x\<close>), the
  normalized call carries the decoded value; when the decoder raises its decode error (as
  it does for \<open>not json\<close>), the normalized call carries the empty mapping. Nothing is
  raised for that call, and every other call and message is normalized as it would be
  alone: the result is the list of those results, in order.
\<close>

theorem tool_call_arguments_coerced:
  assumes "map_of msg (U ''tool_calls'') = Some (PList (pre @ PDict tc # post))"
    and "map_of tc (U ''function'') = Some (PDict func)"
    and "map_of func (U ''arguments'') = Some (PStr s)"
    and "loads s = Inr v \<or> (\<exists>m. loads s = Inl (JSONDecodeError, m)) \<and> v = PDict []"
    and "for_each (prepare_tool_call loads) pre = Inr pre'"
    and "for_each (prepare_tool_call loads) post = Inr post'"
    and "prepare_messages loads before = Inr before'"
    and "prepare_messages loads after = Inr after'"
  shows "prepare_messages loads (before @ PDict msg # after) =
           Inr (before' @
                PDict (dict_set (U ''tool_calls'')
                  (PList (pre' @
                     PDict (dict_set (U ''function'')
                        (PDict (dict_set (U ''arguments'') v func)) tc) # post')) msg)
                # after')
       \<and> map_of (dict_set (U ''function'') (PDict (dict_set (U ''arguments'') v func)) tc)
            (U ''function'') = Some (PDict (dict_set (U ''arguments'') v func))
       \<and> map_of (dict_set (U ''arguments'') v func) (U ''arguments'') = Some v"
proof -
  have tc: "prepare_tool_call loads (PDict tc) =
           Inr (PDict (dict_set (U ''function'') (PDict (dict_set (U ''arguments'') v func)) tc))"
    using assms(4) prepare_tool_call_decoded[OF assms(2,3)]
      prepare_tool_call_undecodable[OF assms(2,3)] by blast
  have "prepare_message loads (PDict msg) =
          Inr (PDict (dict_set (U ''tool_calls'')
                  (PList (pre' @
                     PDict (dict_set (U ''function'')
                        (PDict (dict_set (U ''arguments'') v func)) tc) # post')) msg))"
    by (rule prepare_message_tool_calls[OF assms(1) assms(5) tc assms(6)])
  then have "prepare_messages loads (before @ PDict msg # after) =
           Inr (before' @
                PDict (dict_set (U ''tool_calls'')
                  (PList (pre' @
                     PDict (dict_set (U ''function'')
                        (PDict (dict_set (U ''arguments'') v func)) tc) # post')) msg)
                # after')"
    unfolding prepare_messages_def
    by (rule for_each_middle[OF assms(7)[unfolded prepare_messages_def] _
          assms(8)[unfolded prepare_messages_def]])
  then show ?thesis
    by (intro conjI) (assumption | rule map_of_dict_set_same)+
qed


theorem tool_call_arguments_coerced_witness:
  "map_of [(U ''role'', PStr (U ''assistant'')), (U ''tool_calls'', PList [PDict [(U ''function'', PDict [(U ''name'', PStr (U ''search'')), (U ''arguments'', PStr (U ''not json''))])]])] (U ''tool_calls'') = Some (PList ([] @ PDict [(U ''function'', PDict [(U ''name'', PStr (U ''search'')), (U ''arguments'', PStr (U ''not json''))])] # []))
   \<and> map_of [(U ''function'', PDict [(U ''name'', PStr (U ''search'')), (U ''arguments'', PStr (U ''not json''))])] (U ''function'') = Some (PDict [(U ''name'', PStr (U ''search'')), (U ''arguments'', PStr (U ''not json''))])
   \<and> map_of [(U ''name'', PStr (U ''search'')), (U ''arguments'', PStr (U ''not json''))] (U ''arguments'') = Some (PStr (U ''not json''))
   \<and> ((\<exists>m. (\<lambda>s. if s = U ''{'' @ [34] @ U ''query'' @ [34] @ U '': '' @ [34] @ U ''x'' @ [34] @ U ''}'' then Inr (PDict [(U ''query'', PStr (U ''x''))]) else Inl (JSONDecodeError, U ''Expecting value'')) (U ''not json'') = Inl (JSONDecodeError, m)) \<and> PDict [] = PDict [])
   \<and> for_each (prepare_tool_call (\<lambda>s. if s = U ''{'' @ [34] @ U ''query'' @ [34] @ U '': '' @ [34] @ U ''x'' @ [34] @ U ''}'' then Inr (PDict [(U ''query'', PStr (U ''x''))]) else Inl (JSONDecodeError, U ''Expecting value''))) [] = Inr []
   \<and> prepare_messages (\<lambda>s. if s = U ''{'' @ [34] @ U ''query'' @ [34] @ U '': '' @ [34] @ U ''x'' @ [34] @ U ''}'' then Inr (PDict [(U ''query'', PStr (U ''x''))]) else Inl (JSONDecodeError, U ''Expecting value'')) [PDict [(U ''role'', PStr (U ''assistant'')), (U ''tool_calls'', PList [PDict [(U ''function'', PDict [(U ''name'', PStr (U ''search'')), (U ''arguments'', PStr (U ''{'' @ [34] @ U ''query'' @ [34] @ U '': '' @ [34] @ U ''x'' @ [34] @ U ''}''))])]])]] = Inr [PDict [(U ''role'', PStr (U ''assistant'')), (U ''tool_calls'', PList [PDict [(U ''function'', PDict [(U ''name'', PStr (U ''search'')), (U ''arguments'', PDict [(U ''query'', PStr (U ''x''))])])]])]]
   \<and> prepare_messages (\<lambda>s. if s = U ''{'' @ [34] @ U ''query'' @ [34] @ U '': '' @ [34] @ U ''x'' @ [34] @ U ''}'' then Inr (PDict [(U ''query'', PStr (U ''x''))]) else Inl (JSONDecodeError, U ''Expecting value'')) [] = Inr []
   \<and> prepare_messages (\<lambda>s. if s = U ''{'' @ [34] @ U ''query'' @ [34] @ U '': '' @ [34] @ U ''x'' @ [34] @ U ''}'' then Inr (PDict [(U ''query'', PStr (U ''x''))]) else Inl (JSONDecodeError, U ''Expecting value'')) ([PDict [(U ''role'', PStr (U ''assistant'')), (U ''tool_calls'', PList [PDict [(U ''function'', PDict [(U ''name'', PStr (U ''search'')), (U ''arguments'', PStr (U ''{'' @ [34] @ U ''query'' @ [34] @ U '': '' @ [34] @ U ''x'' @ [34] @ U ''}''))])]])]] @ PDict [(U ''role'', PStr (U ''assistant'')), (U ''tool_calls'', PList [PDict [(U ''function'', PDict [(U ''name'', PStr (U ''search'')), (U ''arguments'', PStr (U ''not json''))])]])] # []) = Inr [PDict [(U ''role'', PStr (U ''assistant'')), (U ''tool_calls'', PList [PDict [(U ''function'', PDict [(U ''name'', PStr (U ''search'')), (U ''arguments'', PDict [(U ''query'', PStr (U ''x''))])])]])], PDict [(U ''role'', PStr (U ''assistant'')), (U ''tool_calls'', PList [PDict [(U ''function'', PDict [(U ''name'', PStr (U ''search'')), (U ''arguments'', PDict [])])]])]]"
proof -
  have h1: "map_of [(U ''role'', PStr (U ''assistant'')), (U ''tool_calls'', PList [PDict [(U ''function'', PDict [(U ''name'', PStr (U ''search'')), (U ''arguments'', PStr (U ''not json''))])]])] (U ''tool_calls'') = Some (PList ([] @ PDict [(U ''function'', PDict [(U ''name'', PStr (U ''search'')), (U ''arguments'', PStr (U ''not json''))])] # []))"
    by simp
  have h2: "map_of [(U ''function'', PDict [(U ''name'', PStr (U ''search'')), (U ''arguments'', PStr (U ''not json''))])] (U ''function'') = Some (PDict [(U ''name'', PStr (U ''search'')), (U ''arguments'', PStr (U ''not json''))])"
    by simp
  have h3: "map_of [(U ''name'', PStr (U ''search'')), (U ''arguments'', PStr (U ''not json''))] (U ''arguments'') = Some (PStr (U ''not json''))"
    by simp
  have h4: "(\<lambda>s. if s = U ''{'' @ [34] @ U ''query'' @ [34] @ U '': '' @ [34] @ U ''x'' @ [34] @ U ''}'' then Inr (PDict [(U ''query'', PStr (U ''x''))]) else Inl (JSONDecodeError, U ''Expecting value'')) (U ''not json'') = Inr (PDict []) \<or>
      (\<exists>m. (\<lambda>s. if s = U ''{'' @ [34] @ U ''query'' @ [34] @ U '': '' @ [34] @ U ''x'' @ [34] @ U ''}'' then Inr (PDict [(U ''query'', PStr (U ''x''))]) else Inl (JSONDecodeError, U ''Expecting value'')) (U ''not json'') = Inl (JSONDecodeError, m)) \<and> PDict [] = PDict []"
    by simp
  have h5: "for_each (prepare_tool_call (\<lambda>s. if s = U ''{'' @ [34] @ U ''query'' @ [34] @ U '': '' @ [34] @ U ''x'' @ [34] @ U ''}'' then Inr (PDict [(U ''query'', PStr (U ''x''))]) else Inl (JSONDecodeError, U ''Expecting value''))) [] = Inr []"
    by simp
  have h7: "prepare_messages (\<lambda>s. if s = U ''{'' @ [34] @ U ''query'' @ [34] @ U '': '' @ [34] @ U ''x'' @ [34] @ U ''}'' then Inr (PDict [(U ''query'', PStr (U ''x''))]) else Inl (JSONDecodeError, U ''Expecting value'')) [PDict [(U ''role'', PStr (U ''assistant'')), (U ''tool_calls'', PList [PDict [(U ''function'', PDict [(U ''name'', PStr (U ''search'')), (U ''arguments'', PStr (U ''{'' @ [34] @ U ''query'' @ [34] @ U '': '' @ [34] @ U ''x'' @ [34] @ U ''}''))])]])]] = Inr [PDict [(U ''role'', PStr (U ''assistant'')), (U ''tool_calls'', PList [PDict [(U ''function'', PDict [(U ''name'', PStr (U ''search'')), (U ''arguments'', PDict [(U ''query'', PStr (U ''x''))])])]])]]"
    by (simp add: prepare_messages_def prepare_message_def prepare_tool_call_def dict_set_def)
  have h8: "prepare_messages (\<lambda>s. if s = U ''{'' @ [34] @ U ''query'' @ [34] @ U '': '' @ [34] @ U ''x'' @ [34] @ U ''}'' then Inr (PDict [(U ''query'', PStr (U ''x''))]) else Inl (JSONDecodeError, U ''Expecting value'')) [] = Inr []"
    by (simp add: prepare_messages_def)
  have "prepare_messages (\<lambda>s. if s = U ''{'' @ [34] @ U ''query'' @ [34] @ U '': '' @ [34] @ U ''x'' @ [34] @ U ''}'' then Inr (PDict [(U ''query'', PStr (U ''x''))]) else Inl (JSONDecodeError, U ''Expecting value'')) ([PDict [(U ''role'', PStr (U ''assistant'')), (U ''tool_calls'', PList [PDict [(U ''function'', PDict [(U ''name'', PStr (U ''search'')), (U ''arguments'', PStr (U ''{'' @ [34] @ U ''query'' @ [34] @ U '': '' @ [34] @ U ''x'' @ [34] @ U ''}''))])]])]] @ PDict [(U ''role'', PStr (U ''assistant'')), (U ''tool_calls'', PList [PDict [(U ''function'', PDict [(U ''name'', PStr (U ''search'')), (U ''arguments'', PStr (U ''not json''))])]])] # []) = Inr [PDict [(U ''role'', PStr (U ''assistant'')), (U ''tool_calls'', PList [PDict [(U ''function'', PDict [(U ''name'', PStr (U ''search'')), (U ''arguments'', PDict [(U ''query'', PStr (U ''x''))])])]])], PDict [(U ''role'', PStr (U ''assistant'')), (U ''tool_calls'', PList [PDict [(U ''function'', PDict [(U ''name'', PStr (U ''search'')), (U ''arguments'', PDict [])])]])]]"
    using tool_call_arguments_coerced[OF h1 h2 h3 h4 h5 h5 h7 h8]
    by (simp add: dict_set_def)
  then show ?thesis using h1 h2 h3 h4 h5 h7 h8 by simp
qed


section \<open>Classification is a partition of the text\<close>

text \<open>The definitions that the simplifier unfolds to evaluate the model of \<open>re\<close>.\<close>

lemmas re_eval = combined_pattern_def regex_patterns_def metacharacters_def re_escape_def
  special_chars_def re_parse_def close_frame_def is_alnum_def tokenize_patterns_def py_re_def
  py_finditer_def py_fullmatch_def match_here_def slice_def repeat_error_def error_text_def

lemma take_slice: "a \<le> b \<Longrightarrow> take a text @ slice text a b = take b text"
  unfolding slice_def by (metis le_add_diff_inverse take_add)

lemma match_loop_concat:
  assumes "match_loop re patterns text matches result last_end = Inr (result', last_end')"
    and "spans_in_order last_end matches n"
    and "concat (map fst result) = take last_end text"
  shows "concat (map fst result') = take last_end' text \<and> last_end' \<le> n"
  using assms
proof (induction matches arbitrary: result last_end)
  case Nil
  then show ?case by simp
next
  case (Cons sp matches)
  obtain start stop where sp: "sp = (start, stop)" by (cases sp)
  from Cons.prems(2) have ord: "last_end \<le> start" "start \<le> stop"
    and rest: "spans_in_order stop matches n"
    by (simp_all add: sp)
  define result1 where
    "result1 = (if start > last_end then result @ [(slice text last_end start, U ''text'')] else result)"
  have r1: "concat (map fst result1) = take start text"
  proof (cases "start > last_end")
    case True
    then show ?thesis
      using Cons.prems(3) take_slice[OF ord(1), of "text"] by (simp add: result1_def)
  next
    case False
    then have "start = last_end" using ord(1) by simp
    then show ?thesis using Cons.prems(3) False by (simp add: result1_def)
  qed
  from Cons.prems(1) obtain color_key where
    ck: "color_key_of re patterns (slice text start stop) = Inr color_key"
    and loop: "match_loop re patterns text matches
                 (result1 @ [(slice text start stop, color_key)]) stop = Inr (result', last_end')"
    by (auto simp: sp result1_def Let_def split: sum.splits)
  have "concat (map fst (result1 @ [(slice text start stop, color_key)])) = take stop text"
    using r1 take_slice[OF ord(2), of "text"] by simp
  then show ?case
    using Cons.IH[OF loop rest] by simp
qed

lemma tokenize_patterns_concat:
  assumes "tokenize_patterns re patterns text = Inr segments"
    and "\<And>matches. finditer re (combined_pattern patterns) text = Inr matches \<Longrightarrow>
           spans_in_order 0 matches (length text)"
  shows "concat (map fst segments) = text"
proof (cases "patterns = []")
  case True
  then show ?thesis using assms(1) by (auto simp: tokenize_patterns_def)
next
  case False
  show ?thesis
  proof (cases "finditer re (combined_pattern patterns) text")
    case (Inl e)
    then show ?thesis
      using assms(1) False
      by (cases e; cases "fst e") (auto simp: tokenize_patterns_def)
  next
    case (Inr matches)
    note so = assms(2)[OF Inr]
    show ?thesis
    proof (cases "match_loop re patterns text matches [] 0")
      case (Inl e)
      then show ?thesis
        using assms(1) False Inr
        by (cases e; cases "fst e") (auto simp: tokenize_patterns_def)
    next
      case (Inr res)
      obtain result last_end where res: "res = (result, last_end)" by (cases res)
      have inv: "concat (map fst result) = take last_end text \<and> last_end \<le> length text"
        using match_loop_concat[OF Inr[unfolded res] so] by simp
      have seg: "segments = (if last_end < length text
                   then result @ [(drop last_end text, U ''text'')] else result)"
        using assms(1) False \<open>finditer re (combined_pattern patterns) text = Inr matches\<close> Inr res
        by (simp add: tokenize_patterns_def)
      show ?thesis
      proof (cases "last_end < length text")
        case True
        then show ?thesis using inv seg by simp
      next
        case False
        then show ?thesis using inv seg by simp
      qed
    qed
  qed
qed


text \<open>The model of \<open>re\<close> keeps the promise on its spans, so it needs no assumption.\<close>

lemma backtrack_leaves_suffix:
  "backtrack r s k = Some e \<Longrightarrow> \<exists>t. k t = Some e \<and> length t \<le> length s"
proof (induction r s k arbitrary: e rule: backtrack.induct)
  case (1 c s k)
  then show ?case by (auto split: list.splits if_splits)
next
  case (2 s k)
  then show ?case by (auto split: list.splits if_splits)
next
  case (3 neg cs s k)
  then show ?case by (auto split: list.splits if_splits)
next
  case (4 s k)
  then show ?case by auto
next
  case (5 a b s k)
  from 5(3) have "backtrack a s (\<lambda>t. backtrack b t k) = Some e" by simp
  from 5(2)[OF this] obtain t where t: "backtrack b t k = Some e" "length t \<le> length s" by blast
  from 5(1)[OF t(1)] obtain u where "k u = Some e" "length u \<le> length t" by blast
  then show ?case using t(2) by (meson le_trans)
next
  case (6 a b s k)
  show ?case
  proof (cases "backtrack a s k")
    case None
    then have "backtrack b s k = Some e" using 6(3) by simp
    then show ?thesis by (rule 6(2)[OF None])
  next
    case (Some e')
    then have "e' = e" using 6(3) by simp
    then show ?thesis using 6(1)[of e] Some by simp
  qed
next
  case (7 a s k)
  let ?k = "\<lambda>t. if length t < length s then backtrack (Star a) t k else None"
  show ?case
  proof (cases "backtrack a s ?k")
    case None
    then have "k s = Some e" using 7(3) by simp
    then show ?thesis by auto
  next
    case (Some e')
    then have "backtrack a s ?k = Some e" using 7(3) by simp
    from 7(2)[OF this] obtain t where t: "?k t = Some e" "length t \<le> length s" by blast
    then have lt: "length t < length s" and b: "backtrack (Star a) t k = Some e"
      by (auto split: if_splits)
    from 7(1)[OF lt b] obtain u where "k u = Some e" "length u \<le> length t" by blast
    then show ?thesis using t(2) by (meson le_trans)
  qed
next
  case (8 a s k)
  then show ?case by simp
qed

lemma match_here_shorter:
  assumes "match_here r s must_advance = Some t"
  shows "length t \<le> length s"
proof -
  from backtrack_leaves_suffix[OF assms[unfolded match_here_def]]
  obtain u where "(if must_advance \<and> length u = length s then None else Some u) = Some t"
    and "length u \<le> length s" by blast
  then show ?thesis by (auto split: if_splits)
qed

lemma find_all_in_order:
  "spans_in_order pos (find_all r s pos must_advance) (pos + length s)"
proof (induction r s pos must_advance rule: find_all.induct)
  case (1 r s pos must_advance)
  show ?case
  proof (cases "match_here r s must_advance")
    case None
    then show ?thesis
    proof (cases s)
      case Nil
      then show ?thesis using None by (simp add: find_all.simps[of r "[]"])
    next
      case (Cons x xs)
      have "spans_in_order (Suc pos) (find_all r xs (Suc pos) False) (Suc pos + length xs)"
        using 1(1)[OF None Cons] .
      moreover have "find_all r s pos must_advance = find_all r xs (Suc pos) False"
        using None Cons by (simp add: find_all.simps[of r s])
      ultimately show ?thesis using Cons
        by (cases "find_all r xs (Suc pos) False") auto
    qed
  next
    case (Some t)
    note le = match_here_shorter[OF Some]
    show ?thesis
    proof (cases "length t < length s")
      case True
      have "spans_in_order (pos + (length s - length t))
              (find_all r t (pos + (length s - length t)) False)
              (pos + (length s - length t) + length t)"
        using 1(2)[OF Some True] .
      then show ?thesis using Some True le
        by (simp add: find_all.simps[of r s])
    next
      case False
      then have eq: "length s - length t = 0" by simp
      show ?thesis
      proof (cases must_advance)
        case True
        then show ?thesis using Some False eq by (simp add: find_all.simps[of r s])
      next
        case nadv: False
        have "spans_in_order pos (find_all r s pos True) (pos + length s)"
          using 1(3)[OF Some False nadv] .
        then show ?thesis using Some False nadv eq by (simp add: find_all.simps[of r s])
      qed
    qed
  qed
qed

lemma py_finditer_in_order:
  "py_finditer pattern s = Inr matches \<Longrightarrow> spans_in_order 0 matches (length s)"
  using find_all_in_order[of 0 _ s False]
  by (auto simp: py_finditer_def split: outcome.splits)


lemma py_re_tokenize_patterns_concat:
  assumes "tokenize_patterns py_re patterns s = Inr segments"
  shows "concat (map fst segments) = s"
  by (rule tokenize_patterns_concat[OF assms]) (simp add: py_re_def py_finditer_in_order)

text \<open>
  C2. For every text and every rule list: when the classifier returns a segment sequence
  (it raises nothing but what the library raises beyond \<open>re.error\<close>), the texts of the
  segments, concatenated in order, are the input text. The library's part is that the
  spans of \<open>finditer\<close> lie in the text from left to right without overlap.
\<close>

theorem classification_is_lossless:
  assumes "tokenize_patterns re patterns s = Inr segments"
    and "\<And>matches. finditer re (combined_pattern patterns) s = Inr matches \<Longrightarrow>
           spans_in_order 0 matches (length s)"
  shows "concat (map fst segments) = s"
  using assms by (rule tokenize_patterns_concat)

theorem classification_is_lossless_witness:
  "tokenize_patterns py_re [(U ''<think>'', U ''think''), (U ''a[b]*'', U ''role'')] (U ''x<think>abb'') = Inr [(U ''x'', U ''text''), (U ''<think>'', U ''think''), (U ''abb'', U ''role'')]
   \<and> finditer py_re (combined_pattern [(U ''<think>'', U ''think''), (U ''a[b]*'', U ''role'')]) (U ''x<think>abb'') = Inr [(1, 8), (8, 11)]
   \<and> spans_in_order 0 [(1, 8), (8, 11)] (length (U ''x<think>abb''))
   \<and> concat (map fst [(U ''x'', U ''text''), (U ''<think>'', U ''think''), (U ''abb'', U ''role'')]) = (U ''x<think>abb'')"
proof -
  have f: "finditer py_re (combined_pattern [(U ''<think>'', U ''think''), (U ''a[b]*'', U ''role'')]) (U ''x<think>abb'') = Inr [(1, 8), (8, 11)]"
    by (simp add: re_eval)
  have s: "spans_in_order 0 [(1, 8), (8, 11)] (length (U ''x<think>abb''))"
    by simp
  have t: "tokenize_patterns py_re [(U ''<think>'', U ''think''), (U ''a[b]*'', U ''role'')] (U ''x<think>abb'') = Inr [(U ''x'', U ''text''), (U ''<think>'', U ''think''), (U ''abb'', U ''role'')]"
    by (simp add: re_eval)
  have "concat (map fst [(U ''x'', U ''text''), (U ''<think>'', U ''think''), (U ''abb'', U ''role'')]) = (U ''x<think>abb'')"
  proof (rule classification_is_lossless[OF t])
    fix matches
    assume "finditer py_re (combined_pattern [(U ''<think>'', U ''think''), (U ''a[b]*'', U ''role'')]) (U ''x<think>abb'') = Inr matches"
    then have "matches = [(1, 8), (8, 11)]" using f by simp
    then show "spans_in_order 0 matches (length (U ''x<think>abb''))" using s by simp
  qed
  then show ?thesis using f s t by (intro conjI)
qed


section \<open>Classifying the empty text\<close>

lemma empty_text_general:
  "patterns = [] \<Longrightarrow> tokenize_patterns re patterns [] = Inr [([], U ''text'')]"
  "patterns \<noteq> [] \<Longrightarrow> finditer re (combined_pattern patterns) [] = Inr [] \<Longrightarrow>
     tokenize_patterns re patterns [] = Inr []"
  "patterns \<noteq> [] \<Longrightarrow> finditer re (combined_pattern patterns) [] = Inl (ReError, m) \<Longrightarrow>
     tokenize_patterns re patterns [] = Inr [([], U ''text'')]"
  "patterns \<noteq> [] \<Longrightarrow> finditer re (combined_pattern patterns) [] = Inr [(0, 0)] \<Longrightarrow>
     color_key_of re patterns [] = Inr key \<Longrightarrow>
     tokenize_patterns re patterns [] = Inr [([], key)]"
  by (simp_all add: tokenize_patterns_def slice_def)

lemma registry_rule_lists_not_empty:
  "token_patterns deepseek_v31 \<noteq> []" "token_patterns qwen3 \<noteq> []"
  "token_patterns glm_45 \<noteq> []" "token_patterns minimax_m2 \<noteq> []"
  by (simp_all add: deepseek_v31_def qwen3_def glm_45_def minimax_m2_def)

lemma no_match_deepseek:
  "finditer py_re (combined_pattern (token_patterns deepseek_v31)) [] = Inr []"
  by (simp add: re_eval deepseek_v31_def)

lemma no_match_qwen3:
  "finditer py_re (combined_pattern (token_patterns qwen3)) [] = Inr []"
  by (simp add: re_eval qwen3_def)

lemma no_match_glm:
  "finditer py_re (combined_pattern (token_patterns glm_45)) [] = Inr []"
  by (simp add: re_eval glm_45_def)

lemma no_match_minimax:
  "finditer py_re (combined_pattern (token_patterns minimax_m2)) [] = Inr []"
  by (simp add: re_eval minimax_m2_def)

lemma get_token_patterns_cases:
  "get_token_patterns st = [] \<or> get_token_patterns st = token_patterns deepseek_v31
   \<or> get_token_patterns st = token_patterns qwen3 \<or> get_token_patterns st = token_patterns glm_45
   \<or> get_token_patterns st = token_patterns minimax_m2"
proof -
  define k where "k = (case selected_model st of None \<Rightarrow> U ''deepseek-v3.1'' | Some k \<Rightarrow> k)"
  show ?thesis
  proof (cases "map_of MODELS k")
    case None
    then show ?thesis by (simp add: get_token_patterns_def k_def[symmetric])
  next
    case (Some config)
    then have "config = deepseek_v31 \<or> config = qwen3 \<or> config = glm_45 \<or> config = minimax_m2"
      by (rule registry_configs)
    then show ?thesis using Some by (auto simp: get_token_patterns_def k_def[symmetric])
  qed
qed

lemma registry_no_match:
  assumes "get_token_patterns st \<noteq> []"
  shows "finditer py_re (combined_pattern (get_token_patterns st)) [] = Inr []"
  using get_token_patterns_cases[of st] assms
    no_match_deepseek no_match_qwen3 no_match_glm no_match_minimax
  by (elim disjE) (simp_all only:)

lemma registry_empty_text:
  "tokenize_with_colors py_re st [] =
     Inr (if get_token_patterns st = [] then [([], U ''text'')] else [])"
proof (cases "get_token_patterns st = []")
  case True
  then show ?thesis
    using empty_text_general(1)[OF True, of py_re]
    by (simp only: tokenize_with_colors_def True if_True refl)
next
  case False
  then show ?thesis
    using empty_text_general(2)[OF False registry_no_match[OF False]]
    by (simp only: tokenize_with_colors_def False if_False)
qed

text \<open>
  C10, as stated, fails for rule lists other than the registry's. The classifier reads its
  rules from the registry, to which a profile can be added; with the single rule \<open>a*\<close>,
  which matches the empty string, the empty text gives one segment of the rule's category,
  and with the single rule \<open>(\<close>, which does not compile, it gives the one plain segment
  with the empty text, although neither rule list is empty.
\<close>

theorem empty_text_counterexample:
  "[(U ''a*'', U ''role'')] \<noteq> []
   \<and> tokenize_patterns py_re [(U ''a*'', U ''role'')] [] = Inr [([], U ''role'')]
   \<and> [(U ''('', U ''role'')] \<noteq> []
   \<and> tokenize_patterns py_re [(U ''('', U ''role'')] [] = Inr [([], U ''text'')]"
  by (simp add: re_eval)

text \<open>
  C10, amended. For every rule list that is not empty and whose combined pattern compiles
  and has no match in the empty text, classifying the empty text gives no segment at all;
  this is so for the rule list of every model of the registry, whatever the session has
  selected. When the rule list is empty (the selected model is not in the registry), or
  when the combined pattern does not compile, the result is the single plain segment
  with the empty text; when the combined pattern matches the empty text, the result is
  one segment with the category resolved for that match.
\<close>

theorem empty_text_classification:
  "(patterns = [] \<longrightarrow> tokenize_patterns re patterns [] = Inr [([], U ''text'')])
   \<and> (patterns \<noteq> [] \<and> finditer re (combined_pattern patterns) [] = Inr [] \<longrightarrow>
        tokenize_patterns re patterns [] = Inr [])
   \<and> (patterns \<noteq> [] \<and> (\<exists>m. finditer re (combined_pattern patterns) [] = Inl (ReError, m)) \<longrightarrow>
        tokenize_patterns re patterns [] = Inr [([], U ''text'')])
   \<and> (patterns \<noteq> [] \<and> finditer re (combined_pattern patterns) [] = Inr [(0, 0)]
        \<and> color_key_of re patterns [] = Inr key \<longrightarrow>
        tokenize_patterns re patterns [] = Inr [([], key)])
   \<and> (get_token_patterns st \<noteq> [] \<longrightarrow>
        finditer py_re (combined_pattern (get_token_patterns st)) [] = Inr [])
   \<and> tokenize_with_colors py_re st [] =
        Inr (if get_token_patterns st = [] then [([], U ''text'')] else [])"
proof (intro conjI impI)
  assume "patterns = []"
  then show "tokenize_patterns re patterns [] = Inr [([], U ''text'')]"
    by (rule empty_text_general(1))
next
  assume "patterns \<noteq> [] \<and> finditer re (combined_pattern patterns) [] = Inr []"
  then show "tokenize_patterns re patterns [] = Inr []"
    using empty_text_general(2) by blast
next
  assume "patterns \<noteq> [] \<and> (\<exists>m. finditer re (combined_pattern patterns) [] = Inl (ReError, m))"
  then show "tokenize_patterns re patterns [] = Inr [([], U ''text'')]"
    using empty_text_general(3) by blast
next
  assume "patterns \<noteq> [] \<and> finditer re (combined_pattern patterns) [] = Inr [(0, 0)]
        \<and> color_key_of re patterns [] = Inr key"
  then show "tokenize_patterns re patterns [] = Inr [([], key)]"
    using empty_text_general(4) by blast
next
  assume "get_token_patterns st \<noteq> []"
  then show "finditer py_re (combined_pattern (get_token_patterns st)) [] = Inr []"
    by (rule registry_no_match)
next
  show "tokenize_with_colors py_re st [] =
        Inr (if get_token_patterns st = [] then [([], U ''text'')] else [])"
    by (rule registry_empty_text)
qed

theorem empty_text_classification_witness:
  "get_token_patterns \<lparr>messages = [], tools = PNone, include_tools = False, selected_model = Some (U ''minimax-m2''), enable_thinking = True, add_generation_prompt = True\<rparr> = token_patterns minimax_m2
   \<and> token_patterns minimax_m2 \<noteq> []
   \<and> finditer py_re (combined_pattern (token_patterns minimax_m2)) [] = Inr []
   \<and> tokenize_patterns py_re (token_patterns minimax_m2) [] = Inr []
   \<and> tokenize_with_colors py_re \<lparr>messages = [], tools = PNone, include_tools = False, selected_model = Some (U ''minimax-m2''), enable_thinking = True, add_generation_prompt = True\<rparr> [] = Inr []
   \<and> get_token_patterns \<lparr>messages = [], tools = PNone, include_tools = False, selected_model = Some (U ''llama''), enable_thinking = True, add_generation_prompt = True\<rparr> = []
   \<and> tokenize_with_colors py_re \<lparr>messages = [], tools = PNone, include_tools = False, selected_model = Some (U ''llama''), enable_thinking = True, add_generation_prompt = True\<rparr> [] = Inr [([], U ''text'')]"
proof -
  have a: "get_token_patterns \<lparr>messages = [], tools = PNone, include_tools = False, selected_model = Some (U ''minimax-m2''), enable_thinking = True, add_generation_prompt = True\<rparr> = token_patterns minimax_m2"
    by (simp add: get_token_patterns_def MODELS_def)
  have b: "get_token_patterns \<lparr>messages = [], tools = PNone, include_tools = False, selected_model = Some (U ''llama''), enable_thinking = True, add_generation_prompt = True\<rparr> = []"
    by (simp add: get_token_patterns_def MODELS_def)
  note ne = registry_rule_lists_not_empty(4)
  note t = empty_text_classification[where re = py_re and patterns = "token_patterns minimax_m2"
      and st = "\<lparr>messages = [], tools = PNone, include_tools = False, selected_model = Some (U ''minimax-m2''), enable_thinking = True, add_generation_prompt = True\<rparr>"]
  note u = empty_text_classification[where re = py_re and patterns = "[]" and st = "\<lparr>messages = [], tools = PNone, include_tools = False, selected_model = Some (U ''llama''), enable_thinking = True, add_generation_prompt = True\<rparr>"]
  have c: "finditer py_re (combined_pattern (token_patterns minimax_m2)) [] = Inr []"
    using t[THEN conjunct2, THEN conjunct2, THEN conjunct2, THEN conjunct2, THEN conjunct1] ne
    by (simp only: a not_False_eq_True simp_thms)
  have d: "tokenize_patterns py_re (token_patterns minimax_m2) [] = Inr []"
    using t[THEN conjunct2, THEN conjunct1] ne c by blast
  have e: "tokenize_with_colors py_re \<lparr>messages = [], tools = PNone, include_tools = False, selected_model = Some (U ''minimax-m2''), enable_thinking = True, add_generation_prompt = True\<rparr> [] = Inr []"
    using t[THEN conjunct2, THEN conjunct2, THEN conjunct2, THEN conjunct2, THEN conjunct2] ne
    by (simp only: a if_False refl)
  have f: "tokenize_with_colors py_re \<lparr>messages = [], tools = PNone, include_tools = False, selected_model = Some (U ''llama''), enable_thinking = True, add_generation_prompt = True\<rparr> [] = Inr [([], U ''text'')]"
    using u[THEN conjunct2, THEN conjunct2, THEN conjunct2, THEN conjunct2, THEN conjunct2]
    by (simp only: b if_True refl)
  show ?thesis by (intro conjI a ne c d e b f)
qed

lemma empty_text_nullable_rule:
  "tokenize_patterns py_re [(U ''a*'', U ''role'')] [] = Inr [([], U ''role'')]"
  by (simp add: re_eval)


section \<open>Malformed rules\<close>

lemma color_key_of_returns:
  assumes "\<And>pattern key t c m. (pattern, key) \<in> set patterns \<Longrightarrow>
             fullmatch re pattern t = Inl (c, m) \<Longrightarrow> c = ReError"
  shows "\<exists>color_key. color_key_of re patterns matched = Inr color_key"
  using assms
proof (induction patterns)
  case Nil
  then show ?case by simp
next
  case (Cons rule patterns)
  obtain pattern key where rule: "rule = (pattern, key)" by (cases rule)
  have ih: "\<exists>color_key. color_key_of re patterns matched = Inr color_key"
  proof (rule Cons.IH)
    fix p k t c m
    assume "(p, k) \<in> set patterns" and "fullmatch re p t = Inl (c, m)"
    then show "c = ReError" using Cons.prems[of p k t c m] by simp
  qed
  show ?case
  proof (cases "fullmatch re pattern matched")
    case (Inl e)
    obtain c m where e: "e = (c, m)" by (cases e)
    have "c = ReError" using Cons.prems[of pattern key matched c m] Inl by (simp add: rule e)
    then show ?thesis using Inl ih by (simp add: rule e)
  next
    case (Inr b)
    then show ?thesis using ih by (cases b) (simp_all add: rule)
  qed
qed

lemma match_loop_returns:
  assumes "\<And>pattern key t c m. (pattern, key) \<in> set patterns \<Longrightarrow>
             fullmatch re pattern t = Inl (c, m) \<Longrightarrow> c = ReError"
  shows "\<exists>res. match_loop re patterns s matches result last_end = Inr res"
proof (induction matches arbitrary: result last_end)
  case Nil
  then show ?case by simp
next
  case (Cons sp matches)
  obtain start stop where sp: "sp = (start, stop)" by (cases sp)
  have "\<exists>color_key. color_key_of re patterns (slice s start stop) = Inr color_key"
    using assms by (rule color_key_of_returns)
  then obtain color_key where "color_key_of re patterns (slice s start stop) = Inr color_key"
    by blast
  then show ?case using Cons.IH by (simp add: sp Let_def)
qed

lemma tokenize_patterns_returns:
  assumes "\<And>pattern key t c m. (pattern, key) \<in> set patterns \<Longrightarrow>
             fullmatch re pattern t = Inl (c, m) \<Longrightarrow> c = ReError"
    and "\<And>c m. finditer re (combined_pattern patterns) s = Inl (c, m) \<Longrightarrow> c = ReError"
  shows "\<exists>segments. tokenize_patterns re patterns s = Inr segments"
proof (cases "patterns = []")
  case True
  then show ?thesis by (simp add: tokenize_patterns_def)
next
  case False
  show ?thesis
  proof (cases "finditer re (combined_pattern patterns) s")
    case (Inl e)
    obtain c m where e: "e = (c, m)" by (cases e)
    have "c = ReError" using assms(2)[of c m] Inl by (simp add: e)
    then show ?thesis using Inl False by (simp add: tokenize_patterns_def e)
  next
    case (Inr matches)
    have "\<exists>res. match_loop re patterns s matches [] 0 = Inr res"
      using assms(1) by (rule match_loop_returns)
    then obtain result last_end where
      "match_loop re patterns s matches [] 0 = Inr (result, last_end)"
      by auto
    then show ?thesis using Inr False by (simp add: tokenize_patterns_def)
  qed
qed

lemma combined_pattern_error:
  assumes "patterns \<noteq> []" and "finditer re (combined_pattern patterns) s = Inl (ReError, m)"
  shows "tokenize_patterns re patterns s = Inr [(s, U ''text'')]"
  using assms by (simp add: tokenize_patterns_def)

lemma color_key_of_rule_error:
  assumes "fullmatch re pattern matched = Inl (ReError, m)"
  shows "color_key_of re ((pattern, key) # rest) matched =
           (if pattern = matched then Inr key else color_key_of re rest matched)"
  using assms by simp

lemma color_key_of_category:
  assumes "\<forall>pattern key t c m. (pattern, key) \<in> set patterns \<longrightarrow>
             fullmatch re pattern t = Inl (c, m) \<longrightarrow> c = ReError"
  shows "color_key_of re patterns matched = Inr (category_of re patterns matched)"
  using assms
proof (induction patterns)
  case Nil
  then show ?case by (simp add: category_of_def)
next
  case (Cons rule patterns)
  obtain pattern key where rule: "rule = (pattern, key)" by (cases rule)
  have ih: "color_key_of re patterns matched = Inr (category_of re patterns matched)"
    by (rule Cons.IH) (use Cons.prems in auto)
  have step: "category_of re (rule # patterns) matched =
          (if rule_takes re pattern matched then key else category_of re patterns matched)"
    by (simp add: category_of_def rule)
  show ?case
  proof (cases "fullmatch re pattern matched")
    case (Inl e)
    obtain c m where e: "e = (c, m)" by (cases e)
    have c: "c = ReError" using Cons.prems Inl by (auto simp: rule e)
    show ?thesis using Inl ih step by (simp add: rule e c rule_takes_def)
  next
    case (Inr b)
    then show ?thesis using ih step by (cases b) (simp_all add: rule rule_takes_def)
  qed
qed

lemma match_loop_segments:
  assumes "\<forall>pattern key t c m. (pattern, key) \<in> set patterns \<longrightarrow>
             fullmatch re pattern t = Inl (c, m) \<longrightarrow> c = ReError"
  shows "\<exists>result' last_end'.
           match_loop re patterns s matches result last_end = Inr (result', last_end')
           \<and> (if last_end' < length s then result' @ [(drop last_end' s, U ''text'')] else result')
               = result @ segments_of re patterns s last_end matches"
proof (induction matches arbitrary: result last_end)
  case Nil
  then show ?case by simp
next
  case (Cons sp matches)
  obtain start stop where sp: "sp = (start, stop)" by (cases sp)
  define result1 where
    "result1 = (if start > last_end then result @ [(slice s last_end start, U ''text'')] else result)"
  define seg where "seg = (slice s start stop, category_of re patterns (slice s start stop))"
  from Cons.IH[of "result1 @ [seg]" stop] obtain result' last_end' where
    loop: "match_loop re patterns s matches (result1 @ [seg]) stop = Inr (result', last_end')"
    and out: "(if last_end' < length s then result' @ [(drop last_end' s, U ''text'')] else result')
               = (result1 @ [seg]) @ segments_of re patterns s stop matches"
    by blast
  have "match_loop re patterns s (sp # matches) result last_end = Inr (result', last_end')"
    using loop color_key_of_category[OF assms, of "slice s start stop"]
    by (simp add: sp Let_def result1_def seg_def)
  moreover have "(result1 @ [seg]) @ segments_of re patterns s stop matches
                   = result @ segments_of re patterns s last_end (sp # matches)"
    by (simp add: sp result1_def seg_def)
  ultimately show ?case using out by (metis)
qed

lemma tokenize_patterns_segments:
  assumes "\<forall>pattern key t c m. (pattern, key) \<in> set patterns \<longrightarrow>
             fullmatch re pattern t = Inl (c, m) \<longrightarrow> c = ReError"
    and "patterns \<noteq> []"
    and "finditer re (combined_pattern patterns) s = Inr matches"
  shows "tokenize_patterns re patterns s = Inr (segments_of re patterns s 0 matches)"
proof -
  from match_loop_segments[OF assms(1), of s matches "[]" 0] obtain result last_end where
    "match_loop re patterns s matches [] 0 = Inr (result, last_end)"
    and "(if last_end < length s then result @ [(drop last_end s, U ''text'')] else result)
           = segments_of re patterns s 0 matches"
    by auto
  then show ?thesis using assms(2,3) by (simp add: tokenize_patterns_def)
qed

lemma span_in_segments_of:
  "(start, stop) \<in> set matches \<Longrightarrow>
     (slice s start stop, category_of re patterns (slice s start stop))
       \<in> set (segments_of re patterns s last_end matches)"
  by (induction matches arbitrary: last_end) auto

text \<open>
  C7, as stated, fails in its second half. The rule list with the one rule that is a
  single backslash (category \<open>role\<close>) is a literal rule for the scan, which escapes it;
  in the category resolution of the span it matched, \<open>re.fullmatch\<close> on the rule itself
  raises \<open>re.error\<close> (a backslash at the end of a pattern), and the \<open>except\<close> branch
  compares the rule with the span: they are equal, so the span gets the rule's category
  and not the plain-text one.
\<close>

theorem rule_error_counterexample:
  "fullmatch py_re [92] [92] = Inl (ReError, U ''bad escape (end of pattern) at position 0'')
   \<and> tokenize_patterns py_re [([92], U ''role'')] (U ''a'' @ [92] @ U ''b'')
       = Inr [(U ''a'', U ''text''), ([92], U ''role''), (U ''b'', U ''text'')]
   \<and> U ''role'' \<noteq> U ''text''"
  by (simp add: re_eval)

text \<open>
  C7, amended. When the library raises nothing but \<open>re.error\<close> on the rules at hand, the
  classifier always returns a segment sequence. If the combined pattern fails to compile,
  that sequence is the whole input as one plain-text segment. Otherwise the sequence is
  exactly \<open>segments_of\<close>: every span that \<open>finditer\<close> found is emitted with the category
  of the first rule of the list that takes it, where a rule that raises \<open>re.error\<close> in this
  resolution takes the span when its text equals the span's text and is passed over
  otherwise; the span is plain text only if no rule takes it; the gaps and the rest of
  the text are emitted as plain text, so the classification of the remaining text goes on.
\<close>

theorem malformed_rules_never_abort:
  assumes "\<forall>pattern key t c m. (pattern, key) \<in> set patterns \<longrightarrow>
             fullmatch re pattern t = Inl (c, m) \<longrightarrow> c = ReError"
    and "\<forall>c m. finditer re (combined_pattern patterns) s = Inl (c, m) \<longrightarrow> c = ReError"
  shows "(\<exists>segments. tokenize_patterns re patterns s = Inr segments)
       \<and> (patterns \<noteq> [] \<and> (\<exists>m. finditer re (combined_pattern patterns) s = Inl (ReError, m))
            \<longrightarrow> tokenize_patterns re patterns s = Inr [(s, U ''text'')])
       \<and> (\<forall>pattern key rest matched m.
             fullmatch re pattern matched = Inl (ReError, m) \<longrightarrow>
             color_key_of re ((pattern, key) # rest) matched =
               (if pattern = matched then Inr key else color_key_of re rest matched))
       \<and> (\<forall>matches. patterns \<noteq> [] \<and> finditer re (combined_pattern patterns) s = Inr matches
            \<longrightarrow> tokenize_patterns re patterns s = Inr (segments_of re patterns s 0 matches)
                \<and> (\<forall>(start, stop) \<in> set matches.
                      (slice s start stop, category_of re patterns (slice s start stop))
                        \<in> set (segments_of re patterns s 0 matches)))
       \<and> (\<forall>matched. color_key_of re patterns matched = Inr (category_of re patterns matched))
       \<and> (\<forall>pattern key rest matched m.
             fullmatch re pattern matched = Inl (ReError, m) \<longrightarrow>
             category_of re ((pattern, key) # rest) matched =
               (if pattern = matched then key else category_of re rest matched))"
proof (intro conjI impI allI ballI)
  show "\<exists>segments. tokenize_patterns re patterns s = Inr segments"
  proof (rule tokenize_patterns_returns)
    fix pattern key t c m
    assume "(pattern, key) \<in> set patterns" and "fullmatch re pattern t = Inl (c, m)"
    then show "c = ReError" using assms(1) by blast
  next
    fix c m
    assume "finditer re (combined_pattern patterns) s = Inl (c, m)"
    then show "c = ReError" using assms(2) by blast
  qed
next
  assume "patterns \<noteq> [] \<and> (\<exists>m. finditer re (combined_pattern patterns) s = Inl (ReError, m))"
  then show "tokenize_patterns re patterns s = Inr [(s, U ''text'')]"
    using combined_pattern_error by blast
next
  fix pattern key rest matched m
  assume "fullmatch re pattern matched = Inl (ReError, m)"
  then show "color_key_of re ((pattern, key) # rest) matched =
               (if pattern = matched then Inr key else color_key_of re rest matched)"
    by (rule color_key_of_rule_error)
next
  fix matches
  assume "patterns \<noteq> [] \<and> finditer re (combined_pattern patterns) s = Inr matches"
  then show "tokenize_patterns re patterns s = Inr (segments_of re patterns s 0 matches)"
    using tokenize_patterns_segments[OF assms(1)] by blast
next
  fix matches :: "(nat \<times> nat) list" and sp
  assume "patterns \<noteq> [] \<and> finditer re (combined_pattern patterns) s = Inr matches"
    and "sp \<in> set matches"
  then show "case sp of (start, stop) \<Rightarrow>
               (slice s start stop, category_of re patterns (slice s start stop))
                 \<in> set (segments_of re patterns s 0 matches)"
    using span_in_segments_of by (cases sp) auto
next
  fix matched
  show "color_key_of re patterns matched = Inr (category_of re patterns matched)"
    using assms(1) by (rule color_key_of_category)
next
  fix pattern key rest matched m
  assume "fullmatch re pattern matched = Inl (ReError, m)"
  then show "category_of re ((pattern, key) # rest) matched =
               (if pattern = matched then key else category_of re rest matched)"
    by (simp add: category_of_def rule_takes_def)
qed

theorem malformed_rules_never_abort_witness:
  "finditer py_re (combined_pattern [([92], U ''role'')]) (U ''a'' @ [92] @ U ''b'') = Inr [(1, 2)]
   \<and> fullmatch py_re [92] [92] = Inl (ReError, U ''bad escape (end of pattern) at position 0'')
   \<and> category_of py_re [([92], U ''role'')] [92] = U ''role''
   \<and> tokenize_patterns py_re [([92], U ''role'')] (U ''a'' @ [92] @ U ''b'')
       = Inr [(U ''a'', U ''text''), ([92], U ''role''), (U ''b'', U ''text'')]
   \<and> color_key_of py_re [([92], U ''role''), (U ''b'', U ''func'')] (U ''b'') = Inr (U ''func'')
   \<and> finditer py_re (combined_pattern [(U ''('', U ''role'')]) (U ''a(b'')
       = Inl (ReError, U ''missing ), unterminated subpattern at position 0'')
   \<and> tokenize_patterns py_re [(U ''('', U ''role'')] (U ''a(b'') = Inr [(U ''a(b'', U ''text'')]"
proof -
  have f1: "\<forall>pattern key t c m. (pattern, key) \<in> set [([92], U ''role'')] \<longrightarrow>
             fullmatch py_re pattern t = Inl (c, m) \<longrightarrow> c = ReError"
    by (simp add: re_eval)
  have g: "finditer py_re (combined_pattern [([92], U ''role'')]) (U ''a'' @ [92] @ U ''b'') = Inr [(1, 2)]"
    by (simp add: re_eval)
  have g1: "\<forall>c m. finditer py_re (combined_pattern [([92], U ''role'')]) (U ''a'' @ [92] @ U ''b'')
              = Inl (c, m) \<longrightarrow> c = ReError"
    using g by simp
  note w1 = malformed_rules_never_abort
      [where re = py_re and patterns = "[([92], U ''role'')]" and s = "U ''a'' @ [92] @ U ''b''",
       OF f1 g1]
  have f2: "\<forall>pattern key t c m. (pattern, key) \<in> set [(U ''('', U ''role'')] \<longrightarrow>
             fullmatch py_re pattern t = Inl (c, m) \<longrightarrow> c = ReError"
    by (simp add: re_eval)
  have g2: "finditer py_re (combined_pattern [(U ''('', U ''role'')]) (U ''a(b'')
       = Inl (ReError, U ''missing ), unterminated subpattern at position 0'')"
    by (simp add: re_eval)
  have g2': "\<forall>c m. finditer py_re (combined_pattern [(U ''('', U ''role'')]) (U ''a(b'')
              = Inl (c, m) \<longrightarrow> c = ReError"
    using g2 by simp
  note w2 = malformed_rules_never_abort
      [where re = py_re and patterns = "[(U ''('', U ''role'')]" and s = "U ''a(b''",
       OF f2 g2']
  have e: "fullmatch py_re [92] [92] = Inl (ReError, U ''bad escape (end of pattern) at position 0'')"
    and e': "fullmatch py_re [92] (U ''b'') = Inl (ReError, U ''bad escape (end of pattern) at position 0'')"
    by (simp_all add: re_eval)
  note fallback = w1[THEN conjunct2, THEN conjunct2, THEN conjunct1, rule_format]
  note spec = w1[THEN conjunct2, THEN conjunct2, THEN conjunct2, THEN conjunct1, rule_format,
      THEN conjunct1]
  note cat = w1[THEN conjunct2, THEN conjunct2, THEN conjunct2, THEN conjunct2, THEN conjunct2,
      rule_format]
  have k: "category_of py_re [([92], U ''role'')] [92] = U ''role''"
    using cat[OF e, of "U ''role''" "[]"] by simp
  have k': "category_of py_re [([92], U ''role'')] (U ''a'') = U ''text''"
    by (simp add: category_of_def rule_takes_def re_eval)
  have "tokenize_patterns py_re [([92], U ''role'')] (U ''a'' @ [92] @ U ''b'')
       = Inr (segments_of py_re [([92], U ''role'')] (U ''a'' @ [92] @ U ''b'') 0 [(1, 2)])"
    by (rule spec) (intro conjI, simp, rule g)
  then have b: "tokenize_patterns py_re [([92], U ''role'')] (U ''a'' @ [92] @ U ''b'')
       = Inr [(U ''a'', U ''text''), ([92], U ''role''), (U ''b'', U ''text'')]"
    using k by (simp add: slice_def)
  have c: "color_key_of py_re [([92], U ''role''), (U ''b'', U ''func'')] (U ''b'') = Inr (U ''func'')"
    using fallback[OF e', of "U ''role''" "[(U ''b'', U ''func'')]"] by (simp add: re_eval)
  have d: "tokenize_patterns py_re [(U ''('', U ''role'')] (U ''a(b'') = Inr [(U ''a(b'', U ''text'')]"
  proof (rule w2[THEN conjunct2, THEN conjunct1, rule_format])
    show "[(U ''('', U ''role'')] \<noteq> [] \<and>
      (\<exists>m. finditer py_re (combined_pattern [(U ''('', U ''role'')]) (U ''a(b'') = Inl (ReError, m))"
      using g2 by blast
  qed
  show ?thesis by (intro conjI g e k b c g2 d)
qed


section \<open>The highlighter against the classifier\<close>

lemmas hl_eval = highlight_prompt_def escape_html_def highlight_metacharacters_def span_open_def
  COLOR_CLASS_MAP_def py_sub_def str_replace_def spec_markup_def

lemma minimax_selected: "get_token_patterns \<lparr>messages = [], tools = PNone, include_tools = False, selected_model = Some (U ''minimax-m2''), enable_thinking = True, add_generation_prompt = True\<rparr> = token_patterns minimax_m2"
  by (simp add: get_token_patterns_def MODELS_def)

lemma classifier_on_invoke:
  "tokenize_patterns py_re (token_patterns minimax_m2) (U ''<invoke name='' @ [34] @ U ''get'' @ [34] @ U ''>'') = Inr [((U ''<invoke name='' @ [34] @ U ''get'' @ [34] @ U ''>''), U ''func'')]"
  by (simp add: re_eval minimax_m2_def)

lemma highlighter_on_invoke:
  "highlight_rules py_re (token_patterns minimax_m2) (U ''&lt;invoke name='' @ [34] @ U ''get'' @ [34] @ U ''&gt;'') = Inr (U ''&lt;invoke name='' @ [34] @ U ''get'' @ [34] @ U ''&gt;'')"
  by (simp add: re_eval hl_eval minimax_m2_def)

text \<open>
  C6 on a concrete input: the MiniMax-M2 profile of the registry and the text
  \<open><invoke name="get">\<close>. The classifier takes the whole tag as one segment of category
  \<open>func\<close> (the rule \<open><invoke[^>]*>\<close>), so the markup of the classification wraps the escaped
  tag in the \<open>token-func\<close> span. The highlighter returns the escaped text with no span at
  all: it rewrites the rule for the escaped text by replacing \<open>>\<close> with \<open>&gt;\<close> also inside
  the character set, which then excludes the characters \<open>&\<close>, \<open>g\<close>, \<open>t\<close> and \<open>;\<close>, and the
  \<open>g\<close> of \<open>get\<close> stops the match.
\<close>

theorem highlighter_misses_invoke_tag:
  "tokenize_with_colors py_re \<lparr>messages = [], tools = PNone, include_tools = False, selected_model = Some (U ''minimax-m2''), enable_thinking = True, add_generation_prompt = True\<rparr> (U ''<invoke name='' @ [34] @ U ''get'' @ [34] @ U ''>'') = Inr [((U ''<invoke name='' @ [34] @ U ''get'' @ [34] @ U ''>''), U ''func'')]
   \<and> spec_markup [((U ''<invoke name='' @ [34] @ U ''get'' @ [34] @ U ''>''), U ''func'')]
       = U ''<span class='' @ [34] @ U ''token-func'' @ [34] @ U ''>'' @ (U ''&lt;invoke name='' @ [34] @ U ''get'' @ [34] @ U ''&gt;'') @ U ''</span>''
   \<and> highlight_prompt py_re \<lparr>messages = [], tools = PNone, include_tools = False, selected_model = Some (U ''minimax-m2''), enable_thinking = True, add_generation_prompt = True\<rparr> (U ''<invoke name='' @ [34] @ U ''get'' @ [34] @ U ''>'') = Inr (U ''&lt;invoke name='' @ [34] @ U ''get'' @ [34] @ U ''&gt;'')
   \<and> highlight_prompt py_re \<lparr>messages = [], tools = PNone, include_tools = False, selected_model = Some (U ''minimax-m2''), enable_thinking = True, add_generation_prompt = True\<rparr> (U ''<invoke name='' @ [34] @ U ''get'' @ [34] @ U ''>'') \<noteq> Inr (spec_markup [((U ''<invoke name='' @ [34] @ U ''get'' @ [34] @ U ''>''), U ''func'')])"
proof -
  have a: "tokenize_with_colors py_re \<lparr>messages = [], tools = PNone, include_tools = False, selected_model = Some (U ''minimax-m2''), enable_thinking = True, add_generation_prompt = True\<rparr> (U ''<invoke name='' @ [34] @ U ''get'' @ [34] @ U ''>'') = Inr [((U ''<invoke name='' @ [34] @ U ''get'' @ [34] @ U ''>''), U ''func'')]"
    unfolding tokenize_with_colors_def minimax_selected by (rule classifier_on_invoke)
  have b: "spec_markup [((U ''<invoke name='' @ [34] @ U ''get'' @ [34] @ U ''>''), U ''func'')]
       = U ''<span class='' @ [34] @ U ''token-func'' @ [34] @ U ''>'' @ (U ''&lt;invoke name='' @ [34] @ U ''get'' @ [34] @ U ''&gt;'') @ U ''</span>''"
    by (simp add: hl_eval)
  have e: "escape_html (U ''<invoke name='' @ [34] @ U ''get'' @ [34] @ U ''>'') = (U ''&lt;invoke name='' @ [34] @ U ''get'' @ [34] @ U ''&gt;'')"
    by (simp add: hl_eval)
  have ne: "token_patterns minimax_m2 \<noteq> []"
    by (simp add: minimax_m2_def)
  have c: "highlight_prompt py_re \<lparr>messages = [], tools = PNone, include_tools = False, selected_model = Some (U ''minimax-m2''), enable_thinking = True, add_generation_prompt = True\<rparr> (U ''<invoke name='' @ [34] @ U ''get'' @ [34] @ U ''>'') = Inr (U ''&lt;invoke name='' @ [34] @ U ''get'' @ [34] @ U ''&gt;'')"
    unfolding highlight_prompt_def Let_def minimax_selected e
    using ne highlighter_on_invoke by (simp only: if_False)
  have d: "highlight_prompt py_re \<lparr>messages = [], tools = PNone, include_tools = False, selected_model = Some (U ''minimax-m2''), enable_thinking = True, add_generation_prompt = True\<rparr> (U ''<invoke name='' @ [34] @ U ''get'' @ [34] @ U ''>'') \<noteq> Inr (spec_markup [((U ''<invoke name='' @ [34] @ U ''get'' @ [34] @ U ''>''), U ''func'')])"
    unfolding b c by simp
  show ?thesis by (intro conjI a b c d)
qed


section \<open>Rule priority\<close>

text \<open>
  C3 on a concrete input. The rule list holds the rule A, which is two backslashes and
  a dot, with category \<open>role\<close>, and after it the rule B, which is \<open>[\\][\\][.]\<close>, with
  category \<open>func\<close>; the text is two backslashes and a dot. A has none of the classifier's
  metacharacters, so the scan escapes it and A matches the whole text at offset 0, as B
  does; A comes first, so the span is A's match. The category resolution then asks
  \<open>re.fullmatch\<close> with A as it is written, unescaped: as a regular expression A matches
  a backslash and one more character, not the three characters of the span, so A is
  passed over and the segment carries the category of B.
\<close>

theorem literal_rule_loses_its_span:
  "regex_patterns [(([92, 92] @ U ''.''), U ''role''), ((U ''['' @ [92, 92] @ U ''][''  @ [92, 92] @ U ''][.]''), U ''func'')] = [U ''('' @ re_escape ([92, 92] @ U ''.'') @ U '')'', U ''('' @ (U ''['' @ [92, 92] @ U ''][''  @ [92, 92] @ U ''][.]'') @ U '')'']
   \<and> finditer py_re (U ''('' @ re_escape ([92, 92] @ U ''.'') @ U '')'') ([92, 92] @ U ''.'') = Inr [(0, 3)]
   \<and> finditer py_re (U ''('' @ (U ''['' @ [92, 92] @ U ''][''  @ [92, 92] @ U ''][.]'') @ U '')'') ([92, 92] @ U ''.'') = Inr [(0, 3)]
   \<and> finditer py_re (combined_pattern [(([92, 92] @ U ''.''), U ''role''), ((U ''['' @ [92, 92] @ U ''][''  @ [92, 92] @ U ''][.]''), U ''func'')]) ([92, 92] @ U ''.'') = Inr [(0, 3)]
   \<and> fullmatch py_re ([92, 92] @ U ''.'') ([92, 92] @ U ''.'') = Inr False
   \<and> fullmatch py_re (U ''['' @ [92, 92] @ U ''][''  @ [92, 92] @ U ''][.]'') ([92, 92] @ U ''.'') = Inr True
   \<and> tokenize_patterns py_re [(([92, 92] @ U ''.''), U ''role''), ((U ''['' @ [92, 92] @ U ''][''  @ [92, 92] @ U ''][.]''), U ''func'')] ([92, 92] @ U ''.'') = Inr [(([92, 92] @ U ''.''), U ''func'')]"
  by (simp add: re_eval)


section \<open>The normalizer leaves its input as it was\<close>

text \<open>
  Every operation of the normalizer either adds an object at the end of the store or
  writes to an object that the call itself has added before. So the store before the call
  is a prefix of the store after it.
\<close>

lemma alloc_value_extends:
  "prefix h (snd (alloc_value v h))"
  "prefix h (snd (alloc_values vs h))"
  "prefix h (snd (alloc_items kvs h))"
  by (induction v h and vs h and kvs h rule: alloc_value_alloc_values_alloc_items.induct)
     (auto simp: alloc_def split: prod.splits intro: prefix_order.trans)

lemma prefix_update:
  "prefix h0 h \<Longrightarrow> length h0 \<le> a \<Longrightarrow> prefix h0 (h[a := ob])"
  by (auto simp: prefix_def list_update_append)

lemma set_item_frame:
  "prefix h0 h \<Longrightarrow> length h0 \<le> a \<Longrightarrow> prefix h0 (set_item a k v h)"
  by (simp add: set_item_def prefix_update split: option.splits obj.splits)

lemma append_item_frame:
  "prefix h0 h \<Longrightarrow> length h0 \<le> a \<Longrightarrow> prefix h0 (append_item a v h)"
  by (simp add: append_item_def prefix_update split: option.splits obj.splits)

lemma copy_object_extends:
  "copy_object v h = (r, h') \<Longrightarrow> prefix h h' \<and> (\<forall>a. r = Inr a \<longrightarrow> a = length h)"
  by (auto simp: copy_object_def alloc_def split: val.splits option.splits)

lemma append_each_frame:
  assumes "\<forall>x h. prefix h (snd (body x h))"
  shows "prefix h0 h \<Longrightarrow> length h0 \<le> target \<Longrightarrow> prefix h0 (snd (append_each body target xs h))"
proof (induction xs arbitrary: h)
  case Nil
  then show ?case by simp
next
  case (Cons x xs)
  obtain r h' where b: "body x h = (r, h')" by (cases "body x h")
  have "prefix h h'" using assms [rule_format, of h x] b by simp
  hence p: "prefix h0 h'" using Cons.prems(1) by (rule prefix_order.trans [rotated])
  show ?case
  proof (cases r)
    case (Inl e)
    then show ?thesis using b p by simp
  next
    case (Inr y)
    have "prefix h0 (append_item target y h')" using p Cons.prems(2) by (rule append_item_frame)
    from Cons.IH [OF this Cons.prems(2)] show ?thesis using b Inr by simp
  qed
qed

lemma prepare_tool_call_st_extends:
  "prefix h (snd (prepare_tool_call_st loads tc h))"
proof (cases "copy_object tc h")
  case (Pair r h1)
  note c1 = copy_object_extends [OF Pair]
  show ?thesis
  proof (cases r)
    case (Inl e)
    then show ?thesis using Pair c1 by (simp add: prepare_tool_call_st_def)
  next
    case (Inr tc_copy)
    hence a1: "length h \<le> tc_copy" and p1: "prefix h h1" using c1 by simp_all
    show ?thesis
    proof (cases "deref h1 tc_copy")
      case None
      then show ?thesis using Pair Inr p1 by (simp add: prepare_tool_call_st_def)
    next
      case (Some ob)
      show ?thesis
      proof (cases ob)
        case (OList items)
        then show ?thesis using Pair Inr p1 Some by (simp add: prepare_tool_call_st_def)
      next
        case (ODict entries)
        show ?thesis
        proof (cases "map_of entries (U ''function'')")
          case None
          then show ?thesis using Pair Inr p1 Some ODict by (simp add: prepare_tool_call_st_def)
        next
          case fv: (Some fv)
          obtain r2 h2 where c: "copy_object fv h1 = (r2, h2)" by (cases "copy_object fv h1")
          note c2 = copy_object_extends [OF c]
          have p2: "prefix h h2" using p1 c2 by (auto intro: prefix_order.trans)
          show ?thesis
          proof (cases r2)
            case (Inl e)
            then show ?thesis using Pair Inr Some ODict fv c p2 by (simp add: prepare_tool_call_st_def)
          next
            case func: (Inr func)
            hence a2: "length h \<le> func" using c2 p1 by (auto dest: prefix_length_le)
            have s1: "prefix h (set_item tc_copy k v h2)" for k v
              using p2 a1 by (rule set_item_frame)
            have s2: "prefix h (set_item tc_copy k v (set_item func k' v' h3))"
              if "prefix h2 h3" for k v k' v' h3
            proof -
              have "prefix h h3" using p2 that by (rule prefix_order.trans)
              hence "prefix h (set_item func k' v' h3)" using a2 by (rule set_item_frame)
              thus ?thesis using a1 by (rule set_item_frame)
            qed
            have s3: "prefix h (set_item tc_copy k v (set_item func k' v' h3))"
              if "alloc_value d h2 = (w, h3)" for k v k' v' d w h3
            proof (rule s2)
              show "prefix h2 h3" using alloc_value_extends(1) [of h2 d] that by simp
            qed
            have s4: "prefix h (set_item tc_copy k v (set_item func k' v' (h2 @ [ob'])))"
              for k v k' v' ob'
              by (rule s2) simp
            show ?thesis using Pair Inr Some ODict fv c func p2 s1 s3 s4
              by (auto simp: prepare_tool_call_st_def alloc_def
                  split: option.splits obj.splits val.splits sum.splits prod.splits exc_class.splits)
          qed
        qed
      qed
    qed
  qed
qed


lemma prepare_message_st_extends:
  "prefix h (snd (prepare_message_st loads msg h))"
proof (cases "copy_object msg h")
  case (Pair r h1)
  note c1 = copy_object_extends [OF Pair]
  show ?thesis
  proof (cases r)
    case (Inl e)
    then show ?thesis using Pair c1 by (simp add: prepare_message_st_def)
  next
    case (Inr msg_copy)
    hence a1: "length h \<le> msg_copy" and p1: "prefix h h1" using c1 by simp_all
    have p2: "prefix h (h1 @ [ob])" for ob
      using p1 by (rule prefix_order.trans) simp
    have loop: "prefix h (snd (append_each (prepare_tool_call_st loads) (length h1) items (h1 @ [ob])))"
      for items ob
    proof (rule append_each_frame)
      show "\<forall>x h. prefix h (snd (prepare_tool_call_st loads x h))"
        by (simp add: prepare_tool_call_st_extends)
      show "prefix h (h1 @ [ob])" by (rule p2)
      show "length h \<le> length h1" using p1 by (rule prefix_length_le)
    qed
    have stored: "prefix h (set_item msg_copy k v h3)"
      if "append_each (prepare_tool_call_st loads) (length h1) items (h1 @ [ob]) = (u, h3)"
      for k v h3 items ob u
    proof (rule set_item_frame)
      show "prefix h h3" using loop [of items ob] that by simp
      show "length h \<le> msg_copy" by (rule a1)
    qed
    have failed: "prefix h h3"
      if "append_each (prepare_tool_call_st loads) (length h1) items (h1 @ [ob]) = (u, h3)"
      for h3 items ob u
      using loop [of items ob] that by simp
    show ?thesis using Pair Inr p1 p2 stored failed
      by (auto simp: prepare_message_st_def alloc_def
          split: option.splits obj.splits sum.splits prod.splits)
  qed
qed

lemma prepare_messages_st_extends:
  "prefix h (snd (prepare_messages_st loads msgs h))"
proof -
  have p: "prefix h (h @ [ob])" for ob by simp
  have loop: "prefix h (snd (append_each (prepare_message_st loads) (length h) items (h @ [ob])))"
    for items ob
  proof (rule append_each_frame)
    show "\<forall>x h. prefix h (snd (prepare_message_st loads x h))"
      by (simp add: prepare_message_st_extends)
    show "prefix h (h @ [ob])" by simp
    show "length h \<le> length h" by simp
  qed
  have after: "prefix h h2"
    if "append_each (prepare_message_st loads) (length h) items (h @ [ob]) = (u, h2)"
    for h2 items ob u
    using loop [of items ob] that by simp
  show ?thesis using after
    by (auto simp: prepare_messages_st_def alloc_def split: sum.splits prod.splits)
qed

lemma append_item_length:
  "length (append_item a v h) = length h"
  by (simp add: append_item_def split: option.splits obj.splits)

lemma append_each_length:
  assumes "\<forall>x h. prefix h (snd (body x h))"
  shows "length h \<le> length (snd (append_each body target xs h))"
proof (induction xs arbitrary: h)
  case Nil
  then show ?case by simp
next
  case (Cons x xs)
  obtain r h' where b: "body x h = (r, h')" by (cases "body x h")
  have "prefix h h'" using assms [rule_format, of h x] b by simp
  hence l: "length h \<le> length h'" by (rule prefix_length_le)
  show ?case
  proof (cases r)
    case (Inl e)
    then show ?thesis using b l by simp
  next
    case (Inr y)
    have "length (append_item target y h') \<le> length (snd (append_each body target xs (append_item target y h')))"
      by (rule Cons.IH)
    then show ?thesis using b Inr l by (simp add: append_item_length)
  qed
qed

lemma prepare_messages_st_returns_new:
  assumes "prepare_messages_st loads msgs h = (Inr v, h')"
  shows "v = VRef (length h) \<and> length h < length h'"
proof -
  have l: "length (h @ [ob]) \<le> length (snd (append_each (prepare_message_st loads) (length h) items (h @ [ob])))"
    for items ob
    by (rule append_each_length) (simp add: prepare_message_st_extends)
  have after: "length h < length h2"
    if "append_each (prepare_message_st loads) (length h) items (h @ [ob]) = (u, h2)"
    for h2 items ob u
    using l [of ob items] that by simp
  show ?thesis using assms after
    by (auto simp: prepare_messages_st_def alloc_def split: sum.splits prod.splits)
qed

subsection \<open>The store against the values\<close>

text \<open>
  The normalizer on the store computes what \<open>prepare_messages\<close> computes on the values: when
  the input denotes a list of messages, the result denotes the list that \<open>prepare_messages\<close>
  returns for it, and the same exception is raised. An object that the call has added is
  written to only before a reference to it is stored anywhere, so what was built so far is
  read through addresses that later writes do not touch.
\<close>

inductive_simps denotes_simps:
  "denotes P h v PNone" "denotes P h v (PBool b)" "denotes P h v (PInt i)" "denotes P h v (PStr s)"
  "denotes P h v (PList xs)" "denotes P h v (PDict kvs)"
  "denotes P h VNone x" "denotes P h (VBool b) x" "denotes P h (VInt i) x" "denotes P h (VStr s) x"

inductive_simps denotes_list_simps:
  "denotes_list P h [] xs" "denotes_list P h vs []" "denotes_list P h (v # vs) xs" "denotes_list P h vs (x # xs)"

inductive_simps denotes_items_simps:
  "denotes_items P h [] kvs" "denotes_items P h entries []" "denotes_items P h (e # entries) kvs"
  "denotes_items P h entries (kv # kvs)"

lemma denotes_transfer:
  assumes "\<forall>a ob. P a \<longrightarrow> deref h a = Some ob \<longrightarrow> Q a \<and> deref g a = Some ob"
  shows "denotes P h v x \<Longrightarrow> denotes Q g v x"
    and "denotes_list P h vs xs \<Longrightarrow> denotes_list Q g vs xs"
    and "denotes_items P h entries kvs \<Longrightarrow> denotes_items Q g entries kvs"
  using assms
  by (induction rule: denotes_denotes_list_denotes_items.inducts)
     (auto intro: denotes_denotes_list_denotes_items.intros)


lemma deref_old: "a < length h \<Longrightarrow> deref (h @ zs) a = deref h a"
  by (simp add: deref_def nth_append)

lemma deref_new: "deref (h @ ob # zs) (length h) = Some ob"
  by (simp add: deref_def)

lemma deref_Some_less: "deref h a = Some ob \<Longrightarrow> a < length h"
  by (simp add: deref_def split: if_splits)

lemma deref_prefix: "prefix h g \<Longrightarrow> deref h a = Some ob \<Longrightarrow> deref g a = Some ob"
  by (auto simp: prefix_def deref_def nth_append split: if_splits)

lemma set_item_length: "length (set_item a k v h) = length h"
  by (simp add: set_item_def split: option.splits obj.splits)

lemma deref_set_item_other: "a \<noteq> b \<Longrightarrow> deref (set_item a k v h) b = deref h b"
  by (simp add: set_item_def deref_def split: option.splits obj.splits)

lemma deref_set_item_same:
  "deref h a = Some (ODict entries) \<Longrightarrow> deref (set_item a k v h) a = Some (ODict (AList.update k v entries))"
  by (simp add: set_item_def deref_def split: if_splits)

lemma deref_append_item_other: "a \<noteq> b \<Longrightarrow> deref (append_item a v h) b = deref h b"
  by (simp add: append_item_def deref_def split: option.splits obj.splits)

lemma deref_append_item_same:
  "deref h a = Some (OList vs) \<Longrightarrow> deref (append_item a v h) a = Some (OList (vs @ [v]))"
  by (simp add: append_item_def deref_def split: if_splits)

lemma denotes_type_name: "denotes P h v x \<Longrightarrow> type_name_of h v = type_name x"
  by (cases x) (auto simp: denotes_simps type_name_of_def)

lemma denotes_truthy: "denotes P h v x \<Longrightarrow> truthy_of h v = truthy x"
  by (cases x) (auto simp: denotes_simps truthy_of_def denotes_list_simps denotes_items_simps)

lemma denotes_items_map_of:
  assumes "denotes_items P h entries kvs"
  shows "map_of kvs k = None \<Longrightarrow> map_of entries k = None"
    and "map_of kvs k = Some x \<Longrightarrow> \<exists>v. map_of entries k = Some v \<and> denotes P h v x"
  using assms
  by (induction entries arbitrary: kvs) (auto simp: denotes_items_simps split: if_splits)

lemma denotes_items_update:
  "denotes_items P h entries kvs \<Longrightarrow> denotes P h v x
     \<Longrightarrow> denotes_items P h (AList.update k v entries) (AList.update k x kvs)"
  by (induction entries arbitrary: kvs) (auto simp: denotes_items_simps)

lemma denotes_list_member:
  "denotes_list P h vs xs \<Longrightarrow> (VStr s \<in> set vs) = (PStr s \<in> set xs)"
  by (induction vs arbitrary: xs) (auto simp: denotes_list_simps denotes_simps)

lemma denotes_list_append:
  "denotes_list P h vs xs \<Longrightarrow> denotes_list P h ws ys \<Longrightarrow> denotes_list P h (vs @ ws) (xs @ ys)"
  by (induction vs arbitrary: xs) (auto simp: denotes_list_simps)

lemma denotes_keys: "denotes_items P h entries kvs
  \<Longrightarrow> denotes_list Q g (map (\<lambda>(k, x). VStr k) entries) (map (\<lambda>(k, v). PStr k) kvs)"
  by (induction entries arbitrary: kvs) (auto simp: denotes_items_simps denotes_list_simps denotes_simps)

lemma denotes_chars: "denotes_list Q g (map (\<lambda>c. VStr [c]) s) (map (\<lambda>c. PStr [c]) s)"
  by (induction s) (auto simp: denotes_list_simps denotes_simps)

lemma denotes_iterate:
  "denotes P h v x \<Longrightarrow>
     (case py_iter x of
        Inl e \<Rightarrow> iterate h v = Inl e
      | Inr xs \<Rightarrow> (\<exists>vs. iterate h v = Inr vs \<and> denotes_list P h vs xs))"
  by (cases x) (auto simp: denotes_simps iterate_def type_name_of_def denotes_keys denotes_chars)

lemma alloc_value_denotes:
  "alloc_value x h = (w, h') \<Longrightarrow> denotes (\<lambda>a. length h \<le> a) h' w x"
  "alloc_values xs h = (ws, h') \<Longrightarrow> denotes_list (\<lambda>a. length h \<le> a) h' ws xs"
  "alloc_items kvs h = (items, h') \<Longrightarrow> denotes_items (\<lambda>a. length h \<le> a) h' items kvs"
proof (induction x h and xs h and kvs h arbitrary: w h' and ws h' and items h'
    rule: alloc_value_alloc_values_alloc_items.induct)
  case (5 xs h)
  obtain vs h1 where a: "alloc_values xs h = (vs, h1)" by (cases "alloc_values xs h")
  have l: "length h \<le> length h1" using alloc_value_extends(2) [of h xs] a by (auto dest: prefix_length_le)
  have w: "w = VRef (length h1)" "h' = h1 @ [OList vs]" using 5(2) a by (simp_all add: alloc_def)
  have "denotes_list (\<lambda>a. length h \<le> a) h' vs xs"
    using 5(1) [OF a] by (rule denotes_transfer(2) [rotated]) (simp add: w deref_def nth_append split: if_splits)
  then show ?case using l by (simp add: denotes_simps w deref_def)
next
  case (6 kvs h)
  obtain items h1 where a: "alloc_items kvs h = (items, h1)" by (cases "alloc_items kvs h")
  have l: "length h \<le> length h1" using alloc_value_extends(3) [of h kvs] a by (auto dest: prefix_length_le)
  have w: "w = VRef (length h1)" "h' = h1 @ [ODict items]" using 6(2) a by (simp_all add: alloc_def)
  have "denotes_items (\<lambda>a. length h \<le> a) h' items kvs"
    using 6(1) [OF a] by (rule denotes_transfer(3) [rotated]) (simp add: w deref_def nth_append split: if_splits)
  then show ?case using l by (simp add: denotes_simps w deref_def)
next
  case (8 x xs h)
  obtain v h1 where a: "alloc_value x h = (v, h1)" by (cases "alloc_value x h")
  obtain vs h2 where b: "alloc_values xs h1 = (vs, h2)" by (cases "alloc_values xs h1")
  have l: "length h \<le> length h1" using alloc_value_extends(1) [of h x] a by (auto dest: prefix_length_le)
  have p: "prefix h1 h2" using alloc_value_extends(2) [of h1 xs] b by simp
  have w: "ws = v # vs" "h' = h2" using 8(3) a b by simp_all
  have "denotes (\<lambda>a. length h \<le> a) h2 v x"
    using 8(1) [OF a] by (rule denotes_transfer(1) [rotated]) (simp add: deref_prefix [OF p])
  moreover have "denotes_list (\<lambda>a. length h \<le> a) h2 vs xs"
    using 8(2) [OF a [symmetric] b] by (rule denotes_transfer(2) [rotated]) (use l in auto)
  ultimately show ?case by (simp add: w denotes_list_simps)
next
  case (10 k x kvs h)
  obtain v h1 where a: "alloc_value x h = (v, h1)" by (cases "alloc_value x h")
  obtain vs h2 where b: "alloc_items kvs h1 = (vs, h2)" by (cases "alloc_items kvs h1")
  have l: "length h \<le> length h1" using alloc_value_extends(1) [of h x] a by (auto dest: prefix_length_le)
  have p: "prefix h1 h2" using alloc_value_extends(3) [of h1 kvs] b by simp
  have w: "items = (k, v) # vs" "h' = h2" using 10(3) a b by simp_all
  have "denotes (\<lambda>a. length h \<le> a) h2 v x"
    using 10(1) [OF a] by (rule denotes_transfer(1) [rotated]) (simp add: deref_prefix [OF p])
  moreover have "denotes_items (\<lambda>a. length h \<le> a) h2 vs kvs"
    using 10(2) [OF a [symmetric] b] by (rule denotes_transfer(3) [rotated]) (use l in auto)
  ultimately show ?case by (simp add: w denotes_items_simps)
qed (auto simp: denotes_simps denotes_list_simps denotes_items_simps)


lemma denotes_old:
  assumes "denotes (\<lambda>a. a < n) h v x" and "\<forall>a ob. a < n \<longrightarrow> deref h a = Some ob \<longrightarrow> deref g a = Some ob"
  shows "denotes (\<lambda>a. a < n \<or> Q a) g v x"
  using assms(1) by (rule denotes_transfer(1) [rotated]) (use assms(2) in auto)

lemma denotes_items_old:
  assumes "denotes_items (\<lambda>a. a < n) h entries kvs"
    and "\<forall>a ob. a < n \<longrightarrow> deref h a = Some ob \<longrightarrow> deref g a = Some ob"
  shows "denotes_items (\<lambda>a. a < n \<or> Q a) g entries kvs"
  using assms(1) by (rule denotes_transfer(3) [rotated]) (use assms(2) in auto)

lemma denotes_list_old:
  assumes "denotes_list (\<lambda>a. a < n) h vs xs"
    and "\<forall>a ob. a < n \<longrightarrow> deref h a = Some ob \<longrightarrow> deref g a = Some ob"
  shows "denotes_list (\<lambda>a. a < n \<or> Q a) g vs xs"
  using assms(1) by (rule denotes_transfer(2) [rotated]) (use assms(2) in auto)

lemma copy_denotes:
  assumes "n \<le> length h"
  shows "denotes_list (\<lambda>a. a < n) h vs xs
      \<Longrightarrow> denotes (\<lambda>a. a < n \<or> length h \<le> a) (h @ [OList vs]) (VRef (length h)) (PList xs)"
    and "denotes_items (\<lambda>a. a < n) h entries kvs
      \<Longrightarrow> denotes (\<lambda>a. a < n \<or> length h \<le> a) (h @ [ODict entries]) (VRef (length h)) (PDict kvs)"
proof -
  have old: "\<forall>a ob. a < n \<longrightarrow> deref h a = Some ob \<longrightarrow> deref (h @ zs) a = Some ob" for zs
    using assms by (simp add: deref_old)
  assume "denotes_list (\<lambda>a. a < n) h vs xs"
  hence "denotes_list (\<lambda>a. a < n \<or> length h \<le> a) (h @ [OList vs]) vs xs"
    using old by (rule denotes_list_old)
  thus "denotes (\<lambda>a. a < n \<or> length h \<le> a) (h @ [OList vs]) (VRef (length h)) (PList xs)"
    by (intro denotes_denotes_list_denotes_items.list) (simp_all add: deref_new)
next
  have old: "\<forall>a ob. a < n \<longrightarrow> deref h a = Some ob \<longrightarrow> deref (h @ zs) a = Some ob" for zs
    using assms by (simp add: deref_old)
  assume "denotes_items (\<lambda>a. a < n) h entries kvs"
  hence "denotes_items (\<lambda>a. a < n \<or> length h \<le> a) (h @ [ODict entries]) entries kvs"
    using old by (rule denotes_items_old)
  thus "denotes (\<lambda>a. a < n \<or> length h \<le> a) (h @ [ODict entries]) (VRef (length h)) (PDict kvs)"
    by (intro denotes_denotes_list_denotes_items.dict) (simp_all add: deref_new)
qed

lemma set_item_denotes:
  assumes items: "denotes_items (\<lambda>a. a < n) h entries kvs"
    and n: "n \<le> length h"
    and p: "prefix h g"
    and c: "deref g (length h) = Some (ODict entries)"
    and v: "denotes (\<lambda>a. a < n \<or> length h < a) g v x"
  shows "denotes (\<lambda>a. a < n \<or> length h \<le> a) (set_item (length h) k v g) (VRef (length h))
           (PDict (dict_set k x kvs))"
proof -
  let ?g = "set_item (length h) k v g"
  have old: "\<forall>a ob. a < n \<longrightarrow> deref h a = Some ob \<longrightarrow> deref ?g a = Some ob"
    using n p by (auto simp: deref_set_item_other dest: deref_prefix)
  have "denotes_items (\<lambda>a. a < n \<or> length h \<le> a) ?g entries kvs"
    using items old by (rule denotes_items_old)
  moreover have "denotes (\<lambda>a. a < n \<or> length h \<le> a) ?g v x"
    using v by (rule denotes_transfer(1) [rotated]) (use n in \<open>auto simp: deref_set_item_other\<close>)
  ultimately have "denotes_items (\<lambda>a. a < n \<or> length h \<le> a) ?g (AList.update k v entries) (AList.update k x kvs)"
    by (rule denotes_items_update)
  moreover have "deref ?g (length h) = Some (ODict (AList.update k v entries))"
    using c by (rule deref_set_item_same)
  ultimately show ?thesis unfolding dict_set_def by (intro denotes_denotes_list_denotes_items.dict) simp_all
qed


lemma copy_object_immediate:
  "\<forall>a. v \<noteq> VRef a \<Longrightarrow> copy_object v h = (Inl (no_attribute_of h v ''copy''), h)"
  by (cases v) (simp_all add: copy_object_def)

lemma copy_object_ref:
  "deref h a = Some ob \<Longrightarrow> copy_object (VRef a) h = (Inr (length h), h @ [ob])"
  by (simp add: copy_object_def alloc_def)

lemma denotes_no_attribute:
  "denotes P h v x \<Longrightarrow> no_attribute_of g v a = no_attribute x a" if "\<forall>b. v \<noteq> VRef b"
  using that by (cases x) (auto simp: denotes_simps no_attribute_of_def no_attribute_def type_name_of_def)

lemma prepare_tool_call_st_refines:
  assumes d: "denotes (\<lambda>a. a < n) h tc ptc"
    and n: "n \<le> length h"
    and run: "prepare_tool_call_st loads tc h = (r, h')"
  shows "case prepare_tool_call loads ptc of
           Inl e \<Rightarrow> r = Inl e
         | Inr out \<Rightarrow> (\<exists>v. r = Inr v \<and> denotes (\<lambda>a. a < n \<or> length h \<le> a) h' v out)"
proof -
  let ?F = "U ''function''" and ?A = "U ''arguments''"
  let ?c = "length h"
  consider (immediate) "\<forall>a. tc \<noteq> VRef a"
    | (list) a vs xs where "tc = VRef a" "ptc = PList xs" "a < n" "deref h a = Some (OList vs)"
        "denotes_list (\<lambda>a. a < n) h vs xs"
    | (dict) a entries kvs where "tc = VRef a" "ptc = PDict kvs" "a < n"
        "deref h a = Some (ODict entries)" "denotes_items (\<lambda>a. a < n) h entries kvs"
    using d by (cases rule: denotes.cases) auto
  then show ?thesis
  proof cases
    case immediate
    have "r = Inl (no_attribute_of h tc ''copy'')"
      using run by (auto simp: prepare_tool_call_st_def copy_object_immediate [OF immediate])
    moreover have "prepare_tool_call loads ptc = Inl (no_attribute ptc ''copy'')"
      using d immediate by (cases ptc) (auto simp: denotes_simps prepare_tool_call_def)
    ultimately show ?thesis using denotes_no_attribute [OF immediate d] by simp
  next
    case list
    have "prepare_tool_call_st loads tc h =
        (if VStr ?F \<in> set vs then (Inl list_index_error, h @ [OList vs])
         else (Inr (VRef ?c), h @ [OList vs]))"
      by (simp add: prepare_tool_call_st_def list(1) copy_object_ref [OF list(4)] deref_new)
    moreover have "(VStr ?F \<in> set vs) = (PStr ?F \<in> set xs)"
      using list(5) by (rule denotes_list_member)
    ultimately show ?thesis
      using run copy_denotes(1) [OF n list(5)] by (auto simp: prepare_tool_call_def list(2))
  next
    case dict
    let ?h1 = "h @ [ODict entries]"
    have copy: "copy_object tc h = (Inr ?c, ?h1)"
      unfolding dict(1) using dict(4) by (rule copy_object_ref)
    have c1: "deref ?h1 ?c = Some (ODict entries)" by (rule deref_new)
    show ?thesis
    proof (cases "map_of kvs ?F")
      case None
      hence "map_of entries ?F = None" by (rule denotes_items_map_of(1) [OF dict(5)])
      hence "r = Inr (VRef ?c) \<and> h' = ?h1"
        using run by (auto simp: prepare_tool_call_st_def copy c1)
      then show ?thesis
        using None copy_denotes(2) [OF n dict(5)] by (simp add: prepare_tool_call_def dict(2))
    next
      case (Some pf)
      then obtain fv where fv: "map_of entries ?F = Some fv" and dfv: "denotes (\<lambda>a. a < n) h fv pf"
        using denotes_items_map_of(2) [OF dict(5)] by blast
      consider (immediate) "\<forall>a. fv \<noteq> VRef a"
        | (list) b fvs fxs where "fv = VRef b" "pf = PList fxs" "b < n" "deref h b = Some (OList fvs)"
        | (dict) b fentries fkvs where "fv = VRef b" "pf = PDict fkvs" "b < n"
            "deref h b = Some (ODict fentries)" "denotes_items (\<lambda>a. a < n) h fentries fkvs"
        using dfv by (cases rule: denotes.cases) auto
      then show ?thesis
      proof cases
        case immediate
        have "r = Inl (no_attribute_of ?h1 fv ''copy'')"
          using run fv
          by (auto simp: prepare_tool_call_st_def copy c1 copy_object_immediate [OF immediate])
        moreover have "prepare_tool_call loads ptc = Inl (no_attribute pf ''copy'')"
          using dfv immediate Some
          by (cases pf) (auto simp: denotes_simps prepare_tool_call_def dict(2))
        ultimately show ?thesis using denotes_no_attribute [OF immediate dfv] by simp
      next
        case list
        have "deref ?h1 b = Some (OList fvs)"
          using list(3,4) n by (simp add: deref_old)
        hence "copy_object fv ?h1 = (Inr (length ?h1), ?h1 @ [OList fvs])"
          unfolding list(1) by (rule copy_object_ref)
        hence "r = Inl (no_attribute_of (?h1 @ [OList fvs]) (VRef (length ?h1)) ''get'')"
          using run fv deref_new [of ?h1 "OList fvs" "[]"]
          by (auto simp: prepare_tool_call_st_def copy c1 simp del: length_append)
        moreover have "no_attribute_of (?h1 @ [OList fvs]) (VRef (length ?h1)) ''get''
            = no_attribute (PList fxs) ''get''"
          using deref_new [of ?h1 "OList fvs" "[]"]
          by (simp add: no_attribute_of_def no_attribute_def type_name_of_def del: length_append)
        ultimately show ?thesis using Some by (simp add: prepare_tool_call_def dict(2) list(2))
      next
        case dict2: dict
        let ?f = "length ?h1"
        let ?h2 = "?h1 @ [ODict fentries]"
        have "deref ?h1 b = Some (ODict fentries)"
          using dict2(3,4) n by (simp add: deref_old)
        hence copy2: "copy_object fv ?h1 = (Inr ?f, ?h2)"
          unfolding dict2(1) by (rule copy_object_ref)
        have f2: "deref ?h2 ?f = Some (ODict fentries)" by (rule deref_new)
        have c2: "deref ?h2 ?c = Some (ODict entries)" by (simp add: deref_def nth_append)
        have old1: "\<forall>a ob. a < n \<longrightarrow> deref h a = Some ob \<longrightarrow> deref ?h1 a = Some ob"
          using n by (simp add: deref_old)
        have fitems: "denotes_items (\<lambda>a. a < n) ?h1 fentries fkvs"
          using dict2(5) by (rule denotes_transfer(3) [rotated]) (use old1 in auto)
        have nf: "n \<le> ?f" using n by simp
        have stored: "denotes (\<lambda>a. a < n \<or> ?c \<le> a)
            (set_item ?c ?F (VRef ?f) (set_item ?f ?A w h3)) (VRef ?c)
            (PDict (dict_set ?F (PDict (dict_set ?A x fkvs)) kvs))"
          if ext: "prefix ?h2 h3" and w: "denotes (\<lambda>a. length ?h2 \<le> a) h3 w x" for h3 w x
        proof -
          have p1: "prefix ?h1 h3" using ext by (auto simp: prefix_def)
          have "denotes (\<lambda>a. a < n \<or> ?f < a) h3 w x"
            using w by (rule denotes_transfer(1) [rotated]) auto
          with fitems nf p1 deref_prefix [OF ext f2]
          have "denotes (\<lambda>a. a < n \<or> ?f \<le> a) (set_item ?f ?A w h3) (VRef ?f)
              (PDict (dict_set ?A x fkvs))"
            by (rule set_item_denotes)
          hence func: "denotes (\<lambda>a. a < n \<or> ?c < a) (set_item ?f ?A w h3) (VRef ?f)
              (PDict (dict_set ?A x fkvs))"
            by (rule denotes_transfer(1) [rotated]) auto
          have "prefix h h3" using ext by (auto simp: prefix_def)
          hence p: "prefix h (set_item ?f ?A w h3)" by (rule set_item_frame) simp
          have "deref (set_item ?f ?A w h3) ?c = Some (ODict entries)"
            using deref_prefix [OF ext c2] by (simp add: deref_set_item_other)
          with dict(5) n p show ?thesis using func by (rule set_item_denotes)
        qed
        have kept: "denotes (\<lambda>a. a < n \<or> ?c \<le> a) (set_item ?c ?F (VRef ?f) ?h2) (VRef ?c)
            (PDict (dict_set ?F (PDict fkvs) kvs))"
        proof -
          have "denotes (\<lambda>a. a < n \<or> ?f \<le> a) ?h2 (VRef ?f) (PDict fkvs)"
            using nf fitems by (rule copy_denotes(2))
          hence func: "denotes (\<lambda>a. a < n \<or> ?c < a) ?h2 (VRef ?f) (PDict fkvs)"
            by (rule denotes_transfer(1) [rotated]) auto
          have p: "prefix h ?h2" by simp
          from dict(5) n p c2 func show ?thesis by (rule set_item_denotes)
        qed
        show ?thesis
        proof (cases "\<exists>s. map_of fkvs ?A = Some (PStr s)")
          case False
          have "\<not> (\<exists>s. map_of fentries ?A = Some (VStr s))"
          proof (cases "map_of fkvs ?A")
            case None
            then show ?thesis using denotes_items_map_of(1) [OF dict2(5)] by simp
          next
            case (Some x)
            then show ?thesis using denotes_items_map_of(2) [OF dict2(5) Some] False
              by (auto simp: denotes_simps)
          qed
          hence "r = Inr (VRef ?c) \<and> h' = set_item ?c ?F (VRef ?f) ?h2"
            using run fv copy c1 copy2 f2
            by (auto simp: prepare_tool_call_st_def simp del: length_append
                split: option.splits val.splits)
          moreover have "prepare_tool_call loads ptc = Inr (PDict (dict_set ?F (PDict fkvs) kvs))"
            using False Some
            by (auto simp: prepare_tool_call_def dict(2) dict2(2) split: option.splits pyval.splits)
          ultimately show ?thesis using kept by simp
        next
          case True
          then obtain s where s: "map_of fkvs ?A = Some (PStr s)" by blast
          hence vs: "map_of fentries ?A = Some (VStr s)"
            using denotes_items_map_of(2) [OF dict2(5) s] by (auto simp: denotes_simps)
          show ?thesis
          proof (cases "loads s")
            case (Inr decoded)
            obtain w h3 where al: "alloc_value decoded ?h2 = (w, h3)"
              by (cases "alloc_value decoded ?h2")
            have ext: "prefix ?h2 h3" using alloc_value_extends(1) [of ?h2 decoded] al by simp
            have "r = Inr (VRef ?c) \<and> h' = set_item ?c ?F (VRef ?f) (set_item ?f ?A w h3)"
              using run fv vs copy c1 copy2 f2 al
              by (auto simp: prepare_tool_call_st_def Inr simp del: length_append)
            moreover have "prepare_tool_call loads ptc
                = Inr (PDict (dict_set ?F (PDict (dict_set ?A decoded fkvs)) kvs))"
              using Some s Inr by (simp add: prepare_tool_call_def dict(2) dict2(2))
            ultimately show ?thesis using stored [OF ext alloc_value_denotes(1) [OF al]] by simp
          next
            case (Inl e)
            show ?thesis
            proof (cases "fst e = JSONDecodeError")
              case False
              hence "r = Inl e"
                using run fv vs copy c1 copy2 f2
                by (cases e)
                   (auto simp: prepare_tool_call_st_def Inl
                    simp del: length_append split: exc_class.splits)
              moreover have "prepare_tool_call loads ptc = Inl e"
                using Some s Inl False
                by (cases e) (auto simp: prepare_tool_call_def dict(2) dict2(2) split: exc_class.splits)
              ultimately show ?thesis by simp
            next
              case True
              let ?h3 = "?h2 @ [ODict []]"
              have "r = Inr (VRef ?c)
                  \<and> h' = set_item ?c ?F (VRef ?f) (set_item ?f ?A (VRef (length ?h2)) ?h3)"
                using run fv vs True copy c1 copy2 f2
                by (cases e)
                   (auto simp: prepare_tool_call_st_def Inl alloc_def
                    simp del: length_append)
              moreover have "prepare_tool_call loads ptc
                  = Inr (PDict (dict_set ?F (PDict (dict_set ?A (PDict []) fkvs)) kvs))"
                using Some s Inl True by (cases e) (simp add: prepare_tool_call_def dict(2) dict2(2))
              moreover have "denotes (\<lambda>a. length ?h2 \<le> a) ?h3 (VRef (length ?h2)) (PDict [])"
                using deref_new [of ?h2 "ODict []" "[]"]
                by (simp add: denotes_simps denotes_items_simps del: length_append)
              moreover have "prefix ?h2 ?h3" by simp
              ultimately show ?thesis using stored [of ?h3 "VRef (length ?h2)" "PDict []"] by simp
            qed
          qed
        qed
      qed
    qed
  qed
qed


lemma append_each_refines:
  assumes body: "\<forall>x px g r g'. denotes (\<lambda>a. a < n) g x px \<longrightarrow> n \<le> length g \<longrightarrow> body x g = (r, g')
      \<longrightarrow> (case pbody px of
             Inl e \<Rightarrow> r = Inl e
           | Inr out \<Rightarrow> (\<exists>v. r = Inr v \<and> denotes (\<lambda>a. a < n \<or> length g \<le> a) g' v out))"
    and frame: "\<forall>x g. prefix g (snd (body x g))"
  shows "denotes_list (\<lambda>a. a < n) h xs pxs \<Longrightarrow> n \<le> t \<Longrightarrow> deref h t = Some (OList acc)
    \<Longrightarrow> denotes_list (\<lambda>a. a < n \<or> t < a) h acc pacc
    \<Longrightarrow> append_each body t xs h = (r, h')
    \<Longrightarrow> (case for_each pbody pxs of
           Inl e \<Rightarrow> r = Inl e
         | Inr outs \<Rightarrow> r = Inr () \<and> (\<exists>vs. deref h' t = Some (OList vs)
               \<and> denotes_list (\<lambda>a. a < n \<or> t < a) h' vs (pacc @ outs)))"
proof (induction xs arbitrary: h acc pacc pxs)
  case Nil
  then show ?case by (auto simp: denotes_list_simps)
next
  case (Cons x xs)
  from Cons.prems(1) obtain px pxs' where pxs: "pxs = px # pxs'"
    and dx: "denotes (\<lambda>a. a < n) h x px" and dxs: "denotes_list (\<lambda>a. a < n) h xs pxs'"
    by (auto simp: denotes_list_simps)
  have t: "t < length h" using Cons.prems(3) by (rule deref_Some_less)
  hence n: "n \<le> length h" using Cons.prems(2) by simp
  obtain r1 g1 where b: "body x h = (r1, g1)" by (cases "body x h")
  have p: "prefix h g1" using frame [rule_format, of h x] b by simp
  note c = body [rule_format, OF dx n b]
  show ?case
  proof (cases "pbody px")
    case (Inl e)
    then show ?thesis using c b Cons.prems(5) by (auto simp: pxs)
  next
    case (Inr out)
    then obtain y where y: "r1 = Inr y" and dy: "denotes (\<lambda>a. a < n \<or> length h \<le> a) g1 y out"
      using c by auto
    let ?g2 = "append_item t y g1"
    have run: "append_each body t xs ?g2 = (r, h')" using Cons.prems(5) b y by simp
    have t2: "deref ?g2 t = Some (OList (acc @ [y]))"
      using deref_prefix [OF p Cons.prems(3)] by (rule deref_append_item_same)
    have xs2: "denotes_list (\<lambda>a. a < n) ?g2 xs pxs'"
      using dxs by (rule denotes_transfer(2) [rotated])
        (use Cons.prems(2) p in \<open>auto simp: deref_append_item_other dest: deref_prefix\<close>)
    have "denotes_list (\<lambda>a. a < n \<or> t < a) ?g2 acc pacc"
      using Cons.prems(4) by (rule denotes_transfer(2) [rotated])
        (use Cons.prems(2) p in \<open>auto simp: deref_append_item_other dest: deref_prefix\<close>)
    moreover have "denotes (\<lambda>a. a < n \<or> t < a) ?g2 y out"
      using dy by (rule denotes_transfer(1) [rotated])
        (use Cons.prems(2) t in \<open>auto simp: deref_append_item_other\<close>)
    ultimately have acc2: "denotes_list (\<lambda>a. a < n \<or> t < a) ?g2 (acc @ [y]) (pacc @ [out])"
      by (intro denotes_list_append) (simp_all add: denotes_list_simps)
    from Cons.IH [OF xs2 Cons.prems(2) t2 acc2 run]
    show ?thesis by (auto simp: pxs Inr split: sum.splits)
  qed
qed

lemma prepare_message_st_refines:
  assumes d: "denotes (\<lambda>a. a < n) h msg pmsg"
    and n: "n \<le> length h"
    and run: "prepare_message_st loads msg h = (r, h')"
  shows "case prepare_message loads pmsg of
           Inl e \<Rightarrow> r = Inl e
         | Inr out \<Rightarrow> (\<exists>v. r = Inr v \<and> denotes (\<lambda>a. a < n \<or> length h \<le> a) h' v out)"
proof -
  let ?T = "U ''tool_calls''"
  let ?c = "length h"
  consider (immediate) "\<forall>a. msg \<noteq> VRef a"
    | (list) a vs xs where "msg = VRef a" "pmsg = PList xs" "a < n" "deref h a = Some (OList vs)"
        "denotes_list (\<lambda>a. a < n) h vs xs"
    | (dict) a entries kvs where "msg = VRef a" "pmsg = PDict kvs" "a < n"
        "deref h a = Some (ODict entries)" "denotes_items (\<lambda>a. a < n) h entries kvs"
    using d by (cases rule: denotes.cases) auto
  then show ?thesis
  proof cases
    case immediate
    have "r = Inl (no_attribute_of h msg ''copy'')"
      using run by (auto simp: prepare_message_st_def copy_object_immediate [OF immediate])
    moreover have "prepare_message loads pmsg = Inl (no_attribute pmsg ''copy'')"
      using d immediate by (cases pmsg) (auto simp: denotes_simps prepare_message_def)
    ultimately show ?thesis using denotes_no_attribute [OF immediate d] by simp
  next
    case list
    have "prepare_message_st loads msg h =
        (if VStr ?T \<in> set vs then (Inl list_index_error, h @ [OList vs])
         else (Inr (VRef ?c), h @ [OList vs]))"
      by (simp add: prepare_message_st_def list(1) copy_object_ref [OF list(4)] deref_new)
    moreover have "(VStr ?T \<in> set vs) = (PStr ?T \<in> set xs)"
      using list(5) by (rule denotes_list_member)
    ultimately show ?thesis
      using run copy_denotes(1) [OF n list(5)] by (auto simp: prepare_message_def list(2))
  next
    case dict
    let ?h1 = "h @ [ODict entries]"
    have copy: "copy_object msg h = (Inr ?c, ?h1)"
      unfolding dict(1) using dict(4) by (rule copy_object_ref)
    have c1: "deref ?h1 ?c = Some (ODict entries)" by (rule deref_new)
    have unchanged: "case prepare_message loads pmsg of
           Inl e \<Rightarrow> r = Inl e
         | Inr out \<Rightarrow> (\<exists>v. r = Inr v \<and> denotes (\<lambda>a. a < n \<or> length h \<le> a) h' v out)"
      if "r = Inr (VRef ?c) \<and> h' = ?h1" "prepare_message loads pmsg = Inr (PDict kvs)"
      using that copy_denotes(2) [OF n dict(5)] by simp
    show ?thesis
    proof (cases "map_of kvs ?T")
      case None
      hence "map_of entries ?T = None" by (rule denotes_items_map_of(1) [OF dict(5)])
      hence "r = Inr (VRef ?c) \<and> h' = ?h1"
        using run copy c1 by (auto simp: prepare_message_st_def)
      moreover have "prepare_message loads pmsg = Inr (PDict kvs)"
        using None by (simp add: prepare_message_def dict(2))
      ultimately show ?thesis by (rule unchanged)
    next
      case (Some ptcs)
      then obtain tcs where tcs: "map_of entries ?T = Some tcs"
        and dtcs: "denotes (\<lambda>a. a < n) h tcs ptcs"
        using denotes_items_map_of(2) [OF dict(5)] by blast
      have old1: "\<forall>a ob. a < n \<longrightarrow> deref h a = Some ob \<longrightarrow> deref (h @ zs) a = Some ob" for zs
        using n by (simp add: deref_old)
      have dtcs1: "denotes (\<lambda>a. a < n) (h @ zs) tcs ptcs" for zs
        using dtcs by (rule denotes_transfer(1) [rotated]) (use old1 in auto)
      have truth: "truthy_of ?h1 tcs = truthy ptcs" using dtcs1 by (rule denotes_truthy)
      show ?thesis
      proof (cases "truthy ptcs")
        case False
        hence "r = Inr (VRef ?c) \<and> h' = ?h1"
          using run copy c1 tcs truth by (auto simp: prepare_message_st_def)
        moreover have "prepare_message loads pmsg = Inr (PDict kvs)"
          using Some False by (simp add: prepare_message_def dict(2))
        ultimately show ?thesis by (rule unchanged)
      next
        case True
        let ?t = "length ?h1"
        let ?h2 = "?h1 @ [OList []]"
        have t2: "deref ?h2 ?t = Some (OList [])" by (rule deref_new)
        have dtcs2: "denotes (\<lambda>a. a < n) ?h2 tcs ptcs" using dtcs1 [of "[ODict entries, OList []]"] by simp
        note it = denotes_iterate [OF dtcs2]
        show ?thesis
        proof (cases "py_iter ptcs")
          case (Inl e)
          hence "iterate ?h2 tcs = Inl e" using it by simp
          hence "r = Inl e"
            using run copy c1 tcs truth True
            by (auto simp: prepare_message_st_def alloc_def simp del: length_append)
          moreover have "prepare_message loads pmsg = Inl e"
            using Some True Inl by (simp add: prepare_message_def dict(2))
          ultimately show ?thesis by simp
        next
          case (Inr pitems)
          then obtain items where items: "iterate ?h2 tcs = Inr items"
            and ditems: "denotes_list (\<lambda>a. a < n) ?h2 items pitems"
            using it by auto
          obtain r3 h3 where loop: "append_each (prepare_tool_call_st loads) ?t items ?h2 = (r3, h3)"
            by (cases "append_each (prepare_tool_call_st loads) ?t items ?h2")
          have nt: "n \<le> ?t" using n by simp
          have p3: "prefix ?h1 h3"
            using append_each_frame [of "prepare_tool_call_st loads" ?h1 ?h2 ?t items] loop
            by (simp add: prepare_tool_call_st_extends)
          have "case for_each (prepare_tool_call loads) pitems of
                  Inl e \<Rightarrow> r3 = Inl e
                | Inr outs \<Rightarrow> r3 = Inr () \<and> (\<exists>vs. deref h3 ?t = Some (OList vs)
                    \<and> denotes_list (\<lambda>a. a < n \<or> ?t < a) h3 vs ([] @ outs))"
          proof (rule append_each_refines [OF _ _ ditems nt t2 _ loop])
            show "\<forall>x px g r g'. denotes (\<lambda>a. a < n) g x px \<longrightarrow> n \<le> length g
                \<longrightarrow> prepare_tool_call_st loads x g = (r, g')
                \<longrightarrow> (case prepare_tool_call loads px of
                       Inl e \<Rightarrow> r = Inl e
                     | Inr out \<Rightarrow> (\<exists>v. r = Inr v \<and> denotes (\<lambda>a. a < n \<or> length g \<le> a) g' v out))"
              by (intro allI impI) (rule prepare_tool_call_st_refines)
            show "\<forall>x g. prefix g (snd (prepare_tool_call_st loads x g))"
              by (simp add: prepare_tool_call_st_extends)
            show "denotes_list (\<lambda>a. a < n \<or> ?t < a) ?h2 [] []" by (simp add: denotes_list_simps)
          qed
          note looped = this
          show ?thesis
          proof (cases "for_each (prepare_tool_call loads) pitems")
            case (Inl e)
            hence "r3 = Inl e" using looped by simp
            hence "r = Inl e"
              using run copy c1 tcs truth True items loop
              by (auto simp: prepare_message_st_def alloc_def simp del: length_append)
            moreover have "prepare_message loads pmsg = Inl e"
              using Some True Inr Inl by (simp add: prepare_message_def dict(2))
            ultimately show ?thesis by simp
          next
            case outs: (Inr outs)
            then obtain vs where vs: "deref h3 ?t = Some (OList vs)"
              and dvs: "denotes_list (\<lambda>a. a < n \<or> ?t < a) h3 vs outs"
              using looped by auto
            have "\<exists>u. r3 = Inr u" by (cases r3) (use looped outs in auto)
            hence "r = Inr (VRef ?c) \<and> h' = set_item ?c ?T (VRef ?t) h3"
              using run copy c1 tcs truth True items loop
              by (auto simp: prepare_message_st_def alloc_def simp del: length_append)
            moreover have "prepare_message loads pmsg
                = Inr (PDict (dict_set ?T (PList outs) kvs))"
              using Some True Inr outs by (simp add: prepare_message_def dict(2))
            moreover have "denotes (\<lambda>a. a < n \<or> ?c \<le> a) (set_item ?c ?T (VRef ?t) h3) (VRef ?c)
                (PDict (dict_set ?T (PList outs) kvs))"
            proof (rule set_item_denotes [OF dict(5) n])
              show "prefix h h3" using p3 by (auto simp: prefix_def)
              show "deref h3 ?c = Some (ODict entries)" using p3 c1 by (rule deref_prefix)
              have "denotes_list (\<lambda>a. a < n \<or> ?c < a) h3 vs outs"
                using dvs by (rule denotes_transfer(2) [rotated]) auto
              thus "denotes (\<lambda>a. a < n \<or> ?c < a) h3 (VRef ?t) (PList outs)"
                using vs by (intro denotes_denotes_list_denotes_items.list) simp_all
            qed
            ultimately show ?thesis by simp
          qed
        qed
      qed
    qed
  qed
qed


lemma prepare_messages_st_refines:
  assumes d: "reads h msgs (PList ms)"
    and run: "prepare_messages_st loads msgs h = (r, h')"
  shows "reads h' msgs (PList ms)
    \<and> (case prepare_messages loads ms of
          Inl e \<Rightarrow> r = Inl e
        | Inr outs \<Rightarrow> (\<exists>v. r = Inr v \<and> reads h' v (PList outs)))"
proof -
  let ?n = "length h"
  let ?h1 = "h @ [OList []]"
  have p: "prefix h h'" using prepare_messages_st_extends [of h loads msgs] run by simp
  have "denotes (\<lambda>a. True) h' msgs (PList ms)"
    using d [unfolded reads_def] by (rule denotes_transfer(1) [rotated]) (use p in \<open>auto dest: deref_prefix\<close>)
  hence kept: "reads h' msgs (PList ms)" by (simp add: reads_def)
  have "denotes (\<lambda>a. a < ?n) ?h1 msgs (PList ms)"
    using d [unfolded reads_def] by (rule denotes_transfer(1) [rotated])
      (auto simp: deref_def nth_append split: if_splits)
  then obtain a items where msgs: "msgs = VRef a" and a: "deref ?h1 a = Some (OList items)"
    and ditems: "denotes_list (\<lambda>a. a < ?n) ?h1 items ms"
    by (auto simp: denotes_simps)
  have it: "iterate ?h1 msgs = Inr items" using a by (simp add: iterate_def msgs)
  obtain r2 h2 where loop: "append_each (prepare_message_st loads) ?n items ?h1 = (r2, h2)"
    by (cases "append_each (prepare_message_st loads) ?n items ?h1")
  have t: "deref ?h1 ?n = Some (OList [])" by (rule deref_new)
  have looped: "case for_each (prepare_message loads) ms of
          Inl e \<Rightarrow> r2 = Inl e
        | Inr outs \<Rightarrow> r2 = Inr () \<and> (\<exists>vs. deref h2 ?n = Some (OList vs)
            \<and> denotes_list (\<lambda>a. a < ?n \<or> ?n < a) h2 vs ([] @ outs))"
  proof (rule append_each_refines [OF _ _ ditems _ t _ loop])
    show "\<forall>x px g r g'. denotes (\<lambda>a. a < ?n) g x px \<longrightarrow> ?n \<le> length g
        \<longrightarrow> prepare_message_st loads x g = (r, g')
        \<longrightarrow> (case prepare_message loads px of
               Inl e \<Rightarrow> r = Inl e
             | Inr out \<Rightarrow> (\<exists>v. r = Inr v \<and> denotes (\<lambda>a. a < ?n \<or> length g \<le> a) g' v out))"
      by (intro allI impI) (rule prepare_message_st_refines)
    show "\<forall>x g. prefix g (snd (prepare_message_st loads x g))"
      by (simp add: prepare_message_st_extends)
    show "denotes_list (\<lambda>a. a < ?n \<or> ?n < a) ?h1 [] []" by (simp add: denotes_list_simps)
    show "?n \<le> ?n" by simp
  qed
  have result: "case prepare_messages loads ms of
          Inl e \<Rightarrow> r = Inl e
        | Inr outs \<Rightarrow> (\<exists>v. r = Inr v \<and> reads h' v (PList outs))"
  proof (cases "for_each (prepare_message loads) ms")
    case (Inl e)
    hence "r2 = Inl e" using looped by simp
    hence "r = Inl e" using run it loop by (auto simp: prepare_messages_st_def alloc_def)
    then show ?thesis using Inl by (simp add: prepare_messages_def)
  next
    case (Inr outs)
    then obtain vs where r2: "r2 = Inr ()" and vs: "deref h2 ?n = Some (OList vs)"
      and dvs: "denotes_list (\<lambda>a. a < ?n \<or> ?n < a) h2 vs outs"
      using looped by auto
    have "r = Inr (VRef ?n) \<and> h' = h2"
      using run it loop r2 by (auto simp: prepare_messages_st_def alloc_def)
    moreover have "denotes_list (\<lambda>a. True) h2 vs outs"
      using dvs by (rule denotes_transfer(2) [rotated]) auto
    hence "reads h2 (VRef ?n) (PList outs)"
      unfolding reads_def using vs by (intro denotes_denotes_list_denotes_items.list) simp_all
    ultimately show ?thesis using Inr by (simp add: prepare_messages_def)
  qed
  show ?thesis using kept result by (rule conjI)
qed

text \<open>
  C9. The message normalizer does not change its input. Whatever the store \<open>h\<close> and the
  value \<open>msgs\<close> passed as the list of messages, and whether the call returns or raises, every
  object of \<open>h\<close> (the list of messages, each message, each tool call, each function and
  arguments value among them) is in the store after the call what it was before; so an input
  that read as the messages \<open>ms\<close> before the call reads as \<open>ms\<close> after it. When the call
  returns, its result is a reference to a list that did not exist before, and that new list
  reads as the messages returned by \<open>prepare_messages\<close>, which hold the decoded arguments:
  these are found from the new list only.
\<close>

theorem input_objects_unchanged:
  assumes "prepare_messages_st loads msgs h = (r, h')"
  shows "length h \<le> length h' \<and> (\<forall>a<length h. h' ! a = h ! a)
    \<and> (\<forall>v. r = Inr v \<longrightarrow> v = VRef (length h) \<and> length h < length h')
    \<and> (\<forall>ms. reads h msgs (PList ms) \<longrightarrow>
          reads h' msgs (PList ms)
          \<and> (case prepare_messages loads ms of
                Inl e \<Rightarrow> r = Inl e
              | Inr outs \<Rightarrow> (\<exists>v. r = Inr v \<and> reads h' v (PList outs))))"
proof -
  have p: "prefix h h'" using prepare_messages_st_extends [of h loads msgs] assms by simp
  then obtain zs where h': "h' = h @ zs" by (auto simp: prefix_def)
  have "\<forall>v. r = Inr v \<longrightarrow> v = VRef (length h) \<and> length h < length h'"
    using assms by (auto dest: prepare_messages_st_returns_new)
  moreover have "\<forall>a<length h. h' ! a = h ! a" by (simp add: h' nth_append)
  moreover have "length h \<le> length h'" by (simp add: h')
  moreover have "\<forall>ms. reads h msgs (PList ms) \<longrightarrow>
          reads h' msgs (PList ms)
          \<and> (case prepare_messages loads ms of
                Inl e \<Rightarrow> r = Inl e
              | Inr outs \<Rightarrow> (\<exists>v. r = Inr v \<and> reads h' v (PList outs)))"
    using assms by (intro allI impI) (rule prepare_messages_st_refines)
  ultimately show ?thesis by (intro conjI)
qed

text \<open>
  On the example store the call returns the new list 5. The function object 4 of the input
  still holds the text \<open>[1]\<close>, and the copy 9 of it holds the decoded list, object 10; the
  input reads as the example messages before and after, and the new list as the prepared
  ones.
\<close>

theorem input_objects_unchanged_witness:
  "prepare_messages_st example_loads (VRef 0) example_store
     = (Inr (VRef 5), example_store @ example_new_objects)
   \<and> length example_store = 5
   \<and> example_store ! 4
     = ODict [(U ''name'', VStr (U ''get'')), (U ''arguments'', VStr (U ''[1]''))]
   \<and> (example_store @ example_new_objects) ! 4
     = ODict [(U ''name'', VStr (U ''get'')), (U ''arguments'', VStr (U ''[1]''))]
   \<and> (example_store @ example_new_objects) ! 9
     = ODict [(U ''name'', VStr (U ''get'')), (U ''arguments'', VRef 10)]
   \<and> (example_store @ example_new_objects) ! 10 = OList [VInt 1]
   \<and> reads example_store (VRef 0) (PList example_messages)
   \<and> reads (example_store @ example_new_objects) (VRef 0) (PList example_messages)
   \<and> prepare_messages example_loads example_messages = Inr example_prepared
   \<and> reads (example_store @ example_new_objects) (VRef 5) (PList example_prepared)"
proof -
  have run: "prepare_messages_st example_loads (VRef 0) example_store
      = (Inr (VRef 5), example_store @ example_new_objects)"
    by (simp add: prepare_messages_st_def prepare_message_st_def prepare_tool_call_st_def
        example_loads_def example_store_def example_new_objects_def alloc_def deref_def
        copy_object_def set_item_def append_item_def iterate_def truthy_of_def)
  have before: "reads example_store (VRef 0) (PList example_messages)"
    by (simp add: reads_def denotes_simps denotes_list_simps denotes_items_simps deref_def
        example_store_def example_messages_def)
  have pure: "prepare_messages example_loads example_messages = Inr example_prepared"
    by (simp add: prepare_messages_def prepare_message_def prepare_tool_call_def dict_set_def
        example_loads_def example_messages_def example_prepared_def)
  have objects: "length example_store = 5
      \<and> example_store ! 4
        = ODict [(U ''name'', VStr (U ''get'')), (U ''arguments'', VStr (U ''[1]''))]
      \<and> (example_store @ example_new_objects) ! 9
        = ODict [(U ''name'', VStr (U ''get'')), (U ''arguments'', VRef 10)]
      \<and> (example_store @ example_new_objects) ! 10 = OList [VInt 1]"
    by (simp add: example_store_def example_new_objects_def)
  note unchanged = input_objects_unchanged [OF run]
  have same: "(example_store @ example_new_objects) ! 4 = example_store ! 4"
    using unchanged objects by simp
  have after: "reads (example_store @ example_new_objects) (VRef 0) (PList example_messages)
      \<and> reads (example_store @ example_new_objects) (VRef 5) (PList example_prepared)"
    using unchanged [THEN conjunct2, THEN conjunct2, THEN conjunct2, rule_format, OF before] pure
    by simp
  show ?thesis using run before pure objects same after by simp
qed

end
